theory Spec2Isabelle
  imports Complex_Main "HOL-Library.Stream"
begin

section \<open>Data model\<close>

text \<open>
  The two scripts \<^verbatim>\<open>part_1.py\<close> and \<^verbatim>\<open>part_2.py\<close> share their helper functions.
  An adjacency matrix is a Python list of rows, each a list of integers; a colouring is
  a list of colour names indexed by node id. Every index the scripts use comes from
  \<^verbatim>\<open>range\<close> or from \<^verbatim>\<open>random.randint(0, ...)\<close>, so indices are natural numbers and a read
  past the end of a list is Python's IndexError.
\<close>

datatype error = IndexError | ZeroDivisionError | ValueError | TypeError

type_synonym adj_matrix = "int list list"
type_synonym color = string
type_synonym coloring = "color list"

definition list_get :: "'a list \<Rightarrow> nat \<Rightarrow> error + 'a" where
  "list_get xs i = (if i < length xs then Inr (xs ! i) else Inl IndexError)"

text \<open>
  Python's \<^verbatim>\<open>range(n)\<close> for an integer \<open>n\<close>: empty when \<open>n \<le> 0\<close>.
\<close>

definition py_range :: "int \<Rightarrow> nat list" where
  "py_range n = [0..<nat n]"

subsection \<open>The random source\<close>

text \<open>
  The module \<^verbatim>\<open>random\<close> is a collaborator outside the repository. It is modelled as an
  infinite stream of raw draws. \<^verbatim>\<open>random.random()\<close> consumes one draw and returns a
  multiple of \<open>2^-53\<close> in \<open>[0, 1)\<close>, as CPython's generator does;
  \<^verbatim>\<open>random.randint(a, b)\<close> consumes one draw and returns an integer in \<open>[a, b]\<close>, and
  raises ValueError on an empty range. Floating-point arithmetic on the small integers
  the scripts divide is idealised as real arithmetic.
\<close>

type_synonym rng = "nat stream"

definition random_random :: "rng \<Rightarrow> real \<times> rng" where
  "random_random g = (real (shd g mod 2 ^ 53) / 2 ^ 53, stl g)"

definition random_randint :: "int \<Rightarrow> int \<Rightarrow> rng \<Rightarrow> error + (int \<times> rng)" where
  "random_randint a b g =
     (if b < a then Inl ValueError
      else Inr (a + int (shd g) mod (b - a + 1), stl g))"

section \<open>Helper functions shared by both scripts\<close>

subsection \<open>get_node_color\<close>

definition get_node_color :: "nat \<Rightarrow> coloring \<Rightarrow> error + color" where
  "get_node_color node colors = list_get colors node"

subsection \<open>get_color_conflicts\<close>

text \<open>
  The inner loop \<^verbatim>\<open>for node_2 in range(node_1)\<close>, with the running counter passed along.
  The colours are read only once the matrix entry is found to be \<open>1\<close>.
\<close>

fun conflicts_row :: "adj_matrix \<Rightarrow> coloring \<Rightarrow> nat \<Rightarrow> nat list \<Rightarrow> nat \<Rightarrow> error + nat" where
  "conflicts_row adj colors node_1 [] conflicts = Inr conflicts"
| "conflicts_row adj colors node_1 (node_2 # rest) conflicts =
     (case list_get adj node_1 of
        Inl e \<Rightarrow> Inl e
      | Inr row \<Rightarrow>
         (case list_get row node_2 of
            Inl e \<Rightarrow> Inl e
          | Inr a \<Rightarrow>
             if a = 1 then
               (case get_node_color node_1 colors of
                  Inl e \<Rightarrow> Inl e
                | Inr c1 \<Rightarrow>
                   (case get_node_color node_2 colors of
                      Inl e \<Rightarrow> Inl e
                    | Inr c2 \<Rightarrow>
                       conflicts_row adj colors node_1 rest
                         (if c1 = c2 then conflicts + 1 else conflicts)))
             else conflicts_row adj colors node_1 rest conflicts))"

text \<open>The outer loop \<^verbatim>\<open>for node_1 in range(len(adj_matrix))\<close>.\<close>

fun conflicts_rows :: "adj_matrix \<Rightarrow> coloring \<Rightarrow> nat list \<Rightarrow> nat \<Rightarrow> error + nat" where
  "conflicts_rows adj colors [] conflicts = Inr conflicts"
| "conflicts_rows adj colors (node_1 # rest) conflicts =
     (case conflicts_row adj colors node_1 [0..<node_1] conflicts of
        Inl e \<Rightarrow> Inl e
      | Inr c \<Rightarrow> conflicts_rows adj colors rest c)"

definition get_color_conflicts :: "adj_matrix \<Rightarrow> coloring \<Rightarrow> error + nat" where
  "get_color_conflicts adj colors = conflicts_rows adj colors [0..<length adj] 0"

section \<open>Perturbation of the topology (part 2)\<close>

text \<open>
  Python's \<^verbatim>\<open>/\<close> on two numbers returns the double nearest to their quotient. That
  rounding is a primitive of the language and not code of the repository, so the model
  takes the division as a parameter \<open>truediv\<close>, a function from the values of the two
  operands to the value of the result, for a divisor that is not zero. Every theorem
  about the perturbation holds for every such function and so does not depend on how a
  quotient is rounded; the parameter also admits functions that are not the division of
  Python, which no theorem needs to exclude. The evaluations at concrete inputs use the
  exact quotient, on operands whose quotient is a double. The draw and the quotient are
  both doubles, and the comparison of two doubles is the comparison of their values.
  Integers too large for a double, on which Python raises OverflowError, are outside
  the model.
\<close>

type_synonym truediv = "real \<Rightarrow> real \<Rightarrow> real"

text \<open>
  The local variables of \<^verbatim>\<open>reverse_n_adjacencies\<close>: the matrix being mutated, the
  counter \<^verbatim>\<open>adjacencies_reversed\<close>, and the random source. The field \<open>toggled\<close> is not
  a variable of the source: it is the history of the writes made at line 110, the pair
  \<open>(node_1, node_2)\<close> of each, in the order in which they are made.
\<close>

record perturb_state =
  adj :: adj_matrix
  adjacencies_reversed :: int
  toggled :: "(nat \<times> nat) list"
  gen :: rng

text \<open>
  One inner loop \<^verbatim>\<open>for node_2 in range(node_1)\<close>. The draw is made first, then the
  quotient \<^verbatim>\<open>num_adjencies_to_reverse / max_edges\<close> is computed (ZeroDivisionError when
  \<^verbatim>\<open>max_edges\<close> is zero), and only the entry \<^verbatim>\<open>adj_matrix[node_1][node_2]\<close> is written.
\<close>

fun scan_row ::
  "truediv \<Rightarrow> int \<Rightarrow> real \<Rightarrow> nat \<Rightarrow> nat list \<Rightarrow> perturb_state \<Rightarrow> error + perturb_state" where
  "scan_row truediv num max_edges node_1 [] s = Inr s"
| "scan_row truediv num max_edges node_1 (node_2 # rest) s =
     (let (u, g) = random_random (gen s) in
      if max_edges = 0 then Inl ZeroDivisionError
      else if u < truediv (real_of_int num) max_edges then
        (case list_get (adj s) node_1 of
           Inl e \<Rightarrow> Inl e
         | Inr row \<Rightarrow>
            (case list_get row node_2 of
               Inl e \<Rightarrow> Inl e
             | Inr a \<Rightarrow>
                scan_row truediv num max_edges node_1 rest
                  (s\<lparr>adj := (adj s)[node_1 := row[node_2 := (if a = 0 then 1 else 0)]],
                     adjacencies_reversed := adjacencies_reversed s + 1,
                     toggled := toggled s @ [(node_1, node_2)],
                     gen := g\<rparr>)))
      else scan_row truediv num max_edges node_1 rest (s\<lparr>gen := g\<rparr>))"

fun scan_rows ::
  "truediv \<Rightarrow> int \<Rightarrow> real \<Rightarrow> nat list \<Rightarrow> perturb_state \<Rightarrow> error + perturb_state" where
  "scan_rows truediv num max_edges [] s = Inr s"
| "scan_rows truediv num max_edges (node_1 # rest) s =
     (case scan_row truediv num max_edges node_1 [0..<node_1] s of
        Inl e \<Rightarrow> Inl e
      | Inr s' \<Rightarrow> scan_rows truediv num max_edges rest s')"

text \<open>
  The outer \<^verbatim>\<open>while adjacencies_reversed < num_adjencies_to_reverse\<close>. Nothing bounds
  the number of scans, so the loop is a partial function: \<open>None\<close> is a run that never
  returns, \<open>Some (Inl e)\<close> a run that raises, \<open>Some (Inr s)\<close> a run that returns.
\<close>

partial_function (option) reverse_loop ::
  "truediv \<Rightarrow> int \<Rightarrow> real \<Rightarrow> perturb_state \<Rightarrow> (error + perturb_state) option" where
  "reverse_loop truediv num max_edges s =
     (if adjacencies_reversed s < num then
        (case scan_rows truediv num max_edges [0..<length (adj s)] s of
           Inl e \<Rightarrow> Some (Inl e)
         | Inr s' \<Rightarrow> reverse_loop truediv num max_edges s')
      else Some (Inr s))"

text \<open>
  The function returns the matrix; the model returns the final local state, whose field
  \<open>adj\<close> is that matrix.
\<close>

definition reverse_n_adjacencies ::
  "truediv \<Rightarrow> adj_matrix \<Rightarrow> int \<Rightarrow> rng \<Rightarrow> (error + perturb_state) option" where
  "reverse_n_adjacencies truediv adj_matrix num_adjencies_to_reverse g =
     (let num_nodes = int (length adj_matrix);
          max_edges = truediv (real_of_int (num_nodes * (num_nodes - 1))) 2
      in reverse_loop truediv num_adjencies_to_reverse max_edges
           \<lparr>adj = adj_matrix, adjacencies_reversed = 0, toggled = [], gen = g\<rparr>)"

section \<open>Graph generation\<close>

text \<open>
  First pass of \<^verbatim>\<open>create_random_simple_graph\<close>: row \<open>x\<close> gets the entries of columns
  \<open>0..x\<close>, the diagonal entry being \<open>0\<close> and every other one a Bernoulli trial.
\<close>

fun half_row :: "real \<Rightarrow> nat \<Rightarrow> nat list \<Rightarrow> int list \<Rightarrow> rng \<Rightarrow> int list \<times> rng" where
  "half_row p x [] row g = (row, g)"
| "half_row p x (y # ys) row g =
     (if x = y then half_row p x ys (row @ [0]) g
      else (let (u, g') = random_random g
            in half_row p x ys (row @ [if u < p then 1 else 0]) g'))"

fun half_matrix :: "real \<Rightarrow> nat list \<Rightarrow> adj_matrix \<Rightarrow> rng \<Rightarrow> adj_matrix \<times> rng" where
  "half_matrix p [] adj_matrix g = (adj_matrix, g)"
| "half_matrix p (x # xs) adj_matrix g =
     (let (row, g') = half_row p x [0..<x + 1] [] g
      in half_matrix p xs (adj_matrix @ [row]) g')"

text \<open>
  Second pass: row \<open>x\<close> is extended by the entries \<^verbatim>\<open>adj_matrix[y][x]\<close> of the column
  below its diagonal element. \<^verbatim>\<open>len(adj_matrix[x])\<close> is read before the inner loop.
\<close>

fun mirror_row :: "nat \<Rightarrow> nat list \<Rightarrow> adj_matrix \<Rightarrow> error + adj_matrix" where
  "mirror_row x [] adj_matrix = Inr adj_matrix"
| "mirror_row x (y # ys) adj_matrix =
     (case list_get adj_matrix x of
        Inl e \<Rightarrow> Inl e
      | Inr row_x \<Rightarrow>
         (case list_get adj_matrix y of
            Inl e \<Rightarrow> Inl e
          | Inr row_y \<Rightarrow>
             (case list_get row_y x of
                Inl e \<Rightarrow> Inl e
              | Inr v \<Rightarrow> mirror_row x ys (adj_matrix[x := row_x @ [v]]))))"

fun mirror_matrix :: "int \<Rightarrow> nat list \<Rightarrow> adj_matrix \<Rightarrow> error + adj_matrix" where
  "mirror_matrix num_nodes [] adj_matrix = Inr adj_matrix"
| "mirror_matrix num_nodes (x # xs) adj_matrix =
     (case list_get adj_matrix x of
        Inl e \<Rightarrow> Inl e
      | Inr row_x \<Rightarrow>
         (case mirror_row x [x + 1..<nat num_nodes] adj_matrix of
            Inl e \<Rightarrow> Inl e
          | Inr adj_matrix' \<Rightarrow> mirror_matrix num_nodes xs adj_matrix'))"

definition create_random_simple_graph :: "int \<Rightarrow> real \<Rightarrow> rng \<Rightarrow> error + (adj_matrix \<times> rng)" where
  "create_random_simple_graph num_nodes prob_of_creating_edge_between_two_nodes g =
     (let (adj_matrix, g') =
            half_matrix prob_of_creating_edge_between_two_nodes (py_range num_nodes) [] g
      in case mirror_matrix num_nodes (py_range num_nodes) adj_matrix of
           Inl e \<Rightarrow> Inl e
         | Inr adj_matrix' \<Rightarrow> Inr (adj_matrix', g'))"

section \<open>Colourings and the node decision rule\<close>

subsection \<open>rand_initialise_colors\<close>

fun init_colors_loop :: "coloring \<Rightarrow> nat list \<Rightarrow> coloring \<Rightarrow> rng \<Rightarrow> error + (coloring \<times> rng)" where
  "init_colors_loop colors_list [] colors g = Inr (colors, g)"
| "init_colors_loop colors_list (node # rest) colors g =
     (case random_randint 0 (int (length colors_list) - 1) g of
        Inl e \<Rightarrow> Inl e
      | Inr (color_index, g') \<Rightarrow>
         (case list_get colors_list (nat color_index) of
            Inl e \<Rightarrow> Inl e
          | Inr c \<Rightarrow> init_colors_loop colors_list rest (colors @ [c]) g'))"

definition rand_initialise_colors :: "adj_matrix \<Rightarrow> coloring \<Rightarrow> rng \<Rightarrow> error + (coloring \<times> rng)" where
  "rand_initialise_colors adj_matrix colors_list g =
     init_colors_loop colors_list [0..<length adj_matrix] [] g"

subsection \<open>get_node_neighbours\<close>

definition get_node_neighbours :: "nat \<Rightarrow> adj_matrix \<Rightarrow> error + nat list" where
  "get_node_neighbours node adj_matrix =
     (case list_get adj_matrix node of
        Inl e \<Rightarrow> Inl e
      | Inr node_row \<Rightarrow> Inr (filter (\<lambda>n. node_row ! n = 1) [0..<length node_row]))"

subsection \<open>The body of the loop over node agents\<close>

text \<open>The comprehension \<^verbatim>\<open>[get_node_color(neighbour, colors) for neighbour in neighbours]\<close>.\<close>

fun neighbour_colors :: "nat list \<Rightarrow> coloring \<Rightarrow> error + color list" where
  "neighbour_colors [] colors = Inr []"
| "neighbour_colors (neighbour # rest) colors =
     (case get_node_color neighbour colors of
        Inl e \<Rightarrow> Inl e
      | Inr c \<Rightarrow>
         (case neighbour_colors rest colors of
            Inl e \<Rightarrow> Inl e
          | Inr cs \<Rightarrow> Inr (c # cs)))"

text \<open>
  The scan \<^verbatim>\<open>for color in curr_colors_list\<close> with its \<^verbatim>\<open>break\<close>: the first colour that
  no neighbour holds is assigned; when the list runs out the colouring is as it was.
\<close>

fun choose_color :: "color list \<Rightarrow> color set \<Rightarrow> nat \<Rightarrow> coloring \<Rightarrow> coloring" where
  "choose_color [] unique_colors_of_neighbours node colors = colors"
| "choose_color (color # rest) unique_colors_of_neighbours node colors =
     (if color \<notin> unique_colors_of_neighbours then colors[node := color]
      else choose_color rest unique_colors_of_neighbours node colors)"

definition node_step ::
  "adj_matrix \<Rightarrow> color list \<Rightarrow> real \<Rightarrow> nat \<Rightarrow> coloring \<Rightarrow> rng \<Rightarrow> error + (coloring \<times> rng)" where
  "node_step adj_matrix curr_colors_list prob_of_node_changing_color node colors g =
     (case get_node_neighbours node adj_matrix of
        Inl e \<Rightarrow> Inl e
      | Inr neighbours \<Rightarrow>
         (case neighbour_colors neighbours colors of
            Inl e \<Rightarrow> Inl e
          | Inr cs \<Rightarrow>
             (let unique_colors_of_neighbours = set cs in
              case get_node_color node colors of
                Inl e \<Rightarrow> Inl e
              | Inr c \<Rightarrow>
                 if c \<in> unique_colors_of_neighbours then
                   (let (u, g') = random_random g in
                    if u < prob_of_node_changing_color
                    then Inr (choose_color curr_colors_list unique_colors_of_neighbours
                                node colors, g')
                    else Inr (colors, g'))
                 else Inr (colors, g))))"

text \<open>One round: \<^verbatim>\<open>for node in range(len(adj_matrix))\<close> over the live colouring.\<close>

fun nodes_pass ::
  "adj_matrix \<Rightarrow> color list \<Rightarrow> real \<Rightarrow> nat list \<Rightarrow> coloring \<Rightarrow> rng \<Rightarrow> error + (coloring \<times> rng)" where
  "nodes_pass adj_matrix curr_colors_list p [] colors g = Inr (colors, g)"
| "nodes_pass adj_matrix curr_colors_list p (node # rest) colors g =
     (case node_step adj_matrix curr_colors_list p node colors g of
        Inl e \<Rightarrow> Inl e
      | Inr (colors', g') \<Rightarrow> nodes_pass adj_matrix curr_colors_list p rest colors' g')"

section \<open>The convergence loop and the palette controller of part 1\<close>

text \<open>
  The loop \<^verbatim>\<open>while get_color_conflicts(adj_matrix, colors) != 0 and iteration <
  max_iterations_per_color_list\<close>. It ends after at most
  \<^verbatim>\<open>max_iterations_per_color_list\<close> rounds.
\<close>

function round_loop ::
  "adj_matrix \<Rightarrow> color list \<Rightarrow> real \<Rightarrow> nat \<Rightarrow> nat \<Rightarrow> coloring \<Rightarrow> rng
     \<Rightarrow> error + (coloring \<times> nat \<times> rng)" where
  "round_loop adj_matrix curr_colors_list p max_iterations iteration colors g =
     (case get_color_conflicts adj_matrix colors of
        Inl e \<Rightarrow> Inl e
      | Inr c \<Rightarrow>
         if c \<noteq> 0 \<and> iteration < max_iterations then
           (case nodes_pass adj_matrix curr_colors_list p [0..<length adj_matrix] colors g of
              Inl e \<Rightarrow> Inl e
            | Inr (colors', g') \<Rightarrow>
               round_loop adj_matrix curr_colors_list p max_iterations (iteration + 1)
                 colors' g')
         else Inr (colors, iteration, g))"
  by pat_completeness auto

termination
  by (relation "measure (\<lambda>(adj_matrix, curr_colors_list, p, max_iterations, iteration, colors, g).
                   max_iterations - iteration)") auto

declare round_loop.simps [simp del]

datatype outcome = Converged | Exhausted

text \<open>
  What one pass of the body of the \<^verbatim>\<open>for num_colors_to_include\<close> loop leaves behind.
  The field \<open>start_gen\<close> is not a variable of the source: it is the random source as the
  attempt found it.
\<close>

record attempt_result =
  palette :: "color list"
  start_gen :: rng
  initial_colors :: coloring
  final_colors :: coloring
  rounds :: nat
  verdict :: outcome

definition attempt ::
  "adj_matrix \<Rightarrow> color list \<Rightarrow> real \<Rightarrow> nat \<Rightarrow> rng \<Rightarrow> error + (attempt_result \<times> rng)" where
  "attempt adj_matrix curr_colors_list p max_iterations g =
     (case rand_initialise_colors adj_matrix curr_colors_list g of
        Inl e \<Rightarrow> Inl e
      | Inr (initial_random_colors, g1) \<Rightarrow>
         (case get_color_conflicts adj_matrix initial_random_colors of
            Inl e \<Rightarrow> Inl e
          | Inr initial_conflicts \<Rightarrow>
             (case round_loop adj_matrix curr_colors_list p max_iterations 0
                     initial_random_colors g1 of
                Inl e \<Rightarrow> Inl e
              | Inr (colors, iteration, g2) \<Rightarrow>
                 (case get_color_conflicts adj_matrix colors of
                    Inl e \<Rightarrow> Inl e
                  | Inr c \<Rightarrow>
                     Inr (\<lparr>palette = curr_colors_list,
                            start_gen = g,
                            initial_colors = initial_random_colors,
                            final_colors = colors,
                            rounds = iteration,
                            verdict = (if c = 0 then Converged else Exhausted)\<rparr>, g2)))))"

text \<open>Python's \<^verbatim>\<open>range(hi, lo, -1)\<close> on natural numbers: \<open>hi, hi - 1, ..., lo + 1\<close>.\<close>

definition py_range_down :: "nat \<Rightarrow> nat \<Rightarrow> nat list" where
  "py_range_down hi lo = rev [lo + 1..<hi + 1]"

text \<open>
  The state of the main loop of part 1: the variable \<^verbatim>\<open>best_achieved_coloring\<close>
  (\<open>None\<close> until an attempt converges), the attempts made so far in order, and the random
  source.
\<close>

record run_state =
  best_achieved_coloring :: "coloring option"
  attempts :: "attempt_result list"
  run_gen :: rng

fun attempts_loop ::
  "adj_matrix \<Rightarrow> color list \<Rightarrow> real \<Rightarrow> nat \<Rightarrow> nat list \<Rightarrow> run_state \<Rightarrow> error + run_state" where
  "attempts_loop adj_matrix all_colors p max_iterations [] st = Inr st"
| "attempts_loop adj_matrix all_colors p max_iterations (num_colors_to_include # rest) st =
     (case attempt adj_matrix (take num_colors_to_include all_colors) p max_iterations
             (run_gen st) of
        Inl e \<Rightarrow> Inl e
      | Inr (a, g') \<Rightarrow>
         if verdict a = Converged then
           attempts_loop adj_matrix all_colors p max_iterations rest
             (st\<lparr>best_achieved_coloring := Some (final_colors a),
                 attempts := attempts st @ [a],
                 run_gen := g'\<rparr>)
         else Inr (st\<lparr>attempts := attempts st @ [a], run_gen := g'\<rparr>))"

text \<open>
  The loop \<^verbatim>\<open>for num_colors_to_include in range(len(all_available_colors), 2, -1)\<close>,
  started with no best colouring.
\<close>

definition part_1_loop ::
  "adj_matrix \<Rightarrow> color list \<Rightarrow> real \<Rightarrow> nat \<Rightarrow> rng \<Rightarrow> error + run_state" where
  "part_1_loop adj_matrix all_colors p max_iterations g =
     attempts_loop adj_matrix all_colors p max_iterations
       (py_range_down (length all_colors) 2)
       \<lparr>best_achieved_coloring = None, attempts = [], run_gen = g\<rparr>"

text \<open>
  The whole of part 1 after the graph is built: the loop over palette sizes, then the
  final report, which takes \<^verbatim>\<open>len(set(best_achieved_coloring))\<close> and so raises TypeError
  when no attempt converged.
\<close>

definition part_1_main ::
  "adj_matrix \<Rightarrow> color list \<Rightarrow> real \<Rightarrow> nat \<Rightarrow> rng \<Rightarrow> error + (run_state \<times> coloring)" where
  "part_1_main adj_matrix all_colors p max_iterations g =
     (case part_1_loop adj_matrix all_colors p max_iterations g of
        Inl e \<Rightarrow> Inl e
      | Inr st \<Rightarrow>
         (case best_achieved_coloring st of
            None \<Rightarrow> Inl TypeError
          | Some best \<Rightarrow> Inr (st, best)))"

section \<open>The adaptive loop of part 2\<close>

text \<open>Python's slice \<^verbatim>\<open>xs[:k]\<close> for an integer \<open>k\<close>; a negative \<open>k\<close> counts from the end.\<close>

definition py_prefix :: "'a list \<Rightarrow> int \<Rightarrow> 'a list" where
  "py_prefix xs k =
     (if 0 \<le> k then take (nat k) xs else take (nat (int (length xs) + k)) xs)"

text \<open>
  The values set at module level that the loop reads, and the cfg_division of the language
  that the perturbation uses, each under the name it has in the source behind the
  prefix \<open>cfg\<close>.
\<close>

record adaptive_config =
  cfg_colors :: "color list"
  cfg_prob_change :: real
  cfg_max_total_iterations :: nat
  cfg_max_per_color_list :: nat
  cfg_perturb_freq_in_iters :: nat
  cfg_division :: truediv

text \<open>
  The assignment \<^verbatim>\<open>current_best_valid_coloring = colors\<close> binds the name to the very
  list that later rounds of the same attempt write to. So the variable is \<open>None\<close>, or
  the list \<^verbatim>\<open>colors\<close> of the running attempt, or the list of an earlier attempt, which
  nothing writes to any more.
\<close>

datatype best_coloring = NoBest | BestIsColors | BestOld coloring

definition best_value :: "best_coloring \<Rightarrow> coloring \<Rightarrow> coloring option" where
  "best_value best colors =
     (case best of NoBest \<Rightarrow> None | BestIsColors \<Rightarrow> Some colors | BestOld c \<Rightarrow> Some c)"

text \<open>
  The module-level variables that the loop changes. The field \<open>attempts_made\<close> is not a
  variable of the source: it is the list of the attempts made so far, in order.
\<close>

record adaptive_state =
  graph :: adj_matrix
  iteration :: nat
  num_colors_to_include :: int
  current_best_valid_coloring :: best_coloring
  lowest_conflicts_achieved_for_current_graph :: "nat option"
  best_num_colors_achieved_over_iterations :: "nat option list"
  iterations_where_solution_available_for_graph :: "nat option list"
  lowest_conflicts_over_iterations :: "nat list"
  iterations_where_graph_perturbed :: "nat list"
  attempts_made :: "attempt_result list"
  adaptive_gen :: rng

text \<open>\<^verbatim>\<open>len(set(colors))\<close>.\<close>

definition num_distinct :: "coloring \<Rightarrow> nat" where
  "num_distinct colors = length (remdups colors)"

text \<open>
  Lines 223 to 273, after the pass over the nodes of one round, for the colouring
  \<open>colors\<close> that the pass left. Every call \<^verbatim>\<open>get_color_conflicts(adj_matrix, colors)\<close>
  of these lines has the same arguments and the same result \<open>c\<close>; the comparison with
  \<^verbatim>\<open>lowest_conflicts_achieved_for_current_graph\<close> raises TypeError when that is \<open>None\<close>.
\<close>

definition history_update :: "coloring \<Rightarrow> adaptive_state \<Rightarrow> error + adaptive_state" where
  "history_update colors st =
     (case get_color_conflicts (graph st) colors of
        Inl e \<Rightarrow> Inl e
      | Inr c \<Rightarrow>
         (case (if iteration st = 1 then Some c
                else lowest_conflicts_achieved_for_current_graph st) of
            None \<Rightarrow> Inl TypeError
          | Some lowest \<Rightarrow>
             (case (case best_value (current_best_valid_coloring st) colors of
                      None \<Rightarrow> Inr None
                    | Some best \<Rightarrow>
                       (case get_color_conflicts (graph st) best of
                          Inl e \<Rightarrow> Inl e
                        | Inr bc \<Rightarrow> Inr (Some (best, bc)))) of
                Inl e \<Rightarrow> Inl e
              | Inr best_and_conflicts \<Rightarrow>
                 (let lowest' = (if c < lowest then c else lowest);
                      lowest'' = (case best_and_conflicts of
                                    None \<Rightarrow> lowest'
                                  | Some (best, bc) \<Rightarrow> if bc \<noteq> 0 then c else lowest');
                      st1 = st\<lparr>lowest_conflicts_achieved_for_current_graph := Some lowest'',
                               lowest_conflicts_over_iterations :=
                                 lowest_conflicts_over_iterations st @ [lowest'']\<rparr>;
                      recorded = st1\<lparr>best_num_colors_achieved_over_iterations :=
                                       best_num_colors_achieved_over_iterations st1
                                         @ [Some (num_distinct colors)],
                                     iterations_where_solution_available_for_graph :=
                                       iterations_where_solution_available_for_graph st1
                                         @ [Some (iteration st1)],
                                     current_best_valid_coloring := BestIsColors\<rparr>;
                      dropped = st1\<lparr>current_best_valid_coloring := NoBest,
                                    best_num_colors_achieved_over_iterations :=
                                      best_num_colors_achieved_over_iterations st1 @ [None],
                                    iterations_where_solution_available_for_graph :=
                                      iterations_where_solution_available_for_graph st1
                                        @ [None]\<rparr>
                  in if c = 0 then
                       (case best_and_conflicts of
                          None \<Rightarrow> Inr recorded
                        | Some (best, bc) \<Rightarrow>
                           if num_distinct colors < num_distinct best then Inr recorded
                           else Inr st1)
                     else
                       (case best_and_conflicts of
                          None \<Rightarrow> Inr dropped
                        | Some (best, bc) \<Rightarrow>
                           if bc = 0 then
                             Inr (st1\<lparr>best_num_colors_achieved_over_iterations :=
                                         best_num_colors_achieved_over_iterations st1
                                           @ [Some (num_distinct best)],
                                       iterations_where_solution_available_for_graph :=
                                         iterations_where_solution_available_for_graph st1
                                           @ [Some (iteration st1)]\<rparr>)
                           else Inr dropped)))))"

text \<open>
  Lines 276 to 278: every \<^verbatim>\<open>perturb_freq_in_iters\<close> rounds the graph is perturbed, with
  the count \<open>50\<close> written in the call. The remainder by zero raises ZeroDivisionError.
  The call to \<^verbatim>\<open>reverse_n_adjacencies\<close> may not return.
\<close>

definition perturb_step ::
  "adaptive_config \<Rightarrow> adaptive_state \<Rightarrow> (error + adaptive_state) option" where
  "perturb_step cfg st =
     (if cfg_perturb_freq_in_iters cfg = 0 then Some (Inl ZeroDivisionError)
      else if iteration st mod cfg_perturb_freq_in_iters cfg = 0 then
        (case reverse_n_adjacencies (cfg_division cfg) (graph st) 50 (adaptive_gen st) of
           None \<Rightarrow> None
         | Some (Inl e) \<Rightarrow> Some (Inl e)
         | Some (Inr s) \<Rightarrow>
            Some (Inr (st\<lparr>graph := adj s,
                          adaptive_gen := gen s,
                          iterations_where_graph_perturbed :=
                            iterations_where_graph_perturbed st @ [iteration st]\<rparr>)))
      else Some (Inr st))"

text \<open>
  The body of the inner \<^verbatim>\<open>while\<close>, lines 186 to 278: one round over the live colouring,
  then the history, then the perturbation.
\<close>

definition adaptive_round ::
  "adaptive_config \<Rightarrow> color list \<Rightarrow> adaptive_state \<Rightarrow> coloring
     \<Rightarrow> (error + (adaptive_state \<times> coloring)) option" where
  "adaptive_round cfg curr_colors_list st colors =
     (case nodes_pass (graph st) curr_colors_list (cfg_prob_change cfg)
             [0..<length (graph st)] colors (adaptive_gen st) of
        Inl e \<Rightarrow> Some (Inl e)
      | Inr (colors', g') \<Rightarrow>
         (case history_update colors'
                 (st\<lparr>iteration := iteration st + 1, adaptive_gen := g'\<rparr>) of
            Inl e \<Rightarrow> Some (Inl e)
          | Inr st1 \<Rightarrow>
             (case perturb_step cfg st1 of
                None \<Rightarrow> None
              | Some (Inl e) \<Rightarrow> Some (Inl e)
              | Some (Inr st2) \<Rightarrow> Some (Inr (st2, colors')))))"

text \<open>
  The inner loop \<^verbatim>\<open>while get_color_conflicts(adj_matrix, colors) != 0 and
  curr_color_list_iteration < max_iterations_per_color_list\<close>.
\<close>

function adaptive_rounds ::
  "adaptive_config \<Rightarrow> color list \<Rightarrow> nat \<Rightarrow> adaptive_state \<Rightarrow> coloring
     \<Rightarrow> (error + (adaptive_state \<times> coloring \<times> nat)) option" where
  "adaptive_rounds cfg curr_colors_list curr_color_list_iteration st colors =
     (case get_color_conflicts (graph st) colors of
        Inl e \<Rightarrow> Some (Inl e)
      | Inr c \<Rightarrow>
         if c \<noteq> 0 \<and> curr_color_list_iteration < cfg_max_per_color_list cfg then
           (case adaptive_round cfg curr_colors_list st colors of
              None \<Rightarrow> None
            | Some (Inl e) \<Rightarrow> Some (Inl e)
            | Some (Inr (st', colors')) \<Rightarrow>
               adaptive_rounds cfg curr_colors_list (curr_color_list_iteration + 1) st' colors')
         else Some (Inr (st, colors, curr_color_list_iteration)))"
  by pat_completeness auto

termination
  by (relation "measure (\<lambda>(cfg, curr_colors_list, curr_color_list_iteration, st, colors).
                   cfg_max_per_color_list cfg - curr_color_list_iteration)") auto

declare adaptive_rounds.simps [simp del]

text \<open>
  The body of the outer \<^verbatim>\<open>while\<close>, lines 168 to 288: a fresh colouring over the first
  \<^verbatim>\<open>num_colors_to_include\<close> colours, the inner loop, and one colour less or one colour
  more for the next attempt. When the name \<^verbatim>\<open>colors\<close> is bound to a new list, a best
  colouring that was the list \<^verbatim>\<open>colors\<close> is from then on the list of an earlier attempt.
\<close>

definition adaptive_attempt ::
  "adaptive_config \<Rightarrow> adaptive_state \<Rightarrow> (error + adaptive_state) option" where
  "adaptive_attempt cfg st =
     (let curr_colors_list = py_prefix (cfg_colors cfg) (num_colors_to_include st) in
      case rand_initialise_colors (graph st) curr_colors_list (adaptive_gen st) of
        Inl e \<Rightarrow> Some (Inl e)
      | Inr (initial_random_colors, g1) \<Rightarrow>
         (case get_color_conflicts (graph st) initial_random_colors of
            Inl e \<Rightarrow> Some (Inl e)
          | Inr initial_conflicts \<Rightarrow>
             (case adaptive_rounds cfg curr_colors_list 0 (st\<lparr>adaptive_gen := g1\<rparr>)
                     initial_random_colors of
                None \<Rightarrow> None
              | Some (Inl e) \<Rightarrow> Some (Inl e)
              | Some (Inr (st', colors, curr_color_list_iteration)) \<Rightarrow>
                 (case get_color_conflicts (graph st') colors of
                    Inl e \<Rightarrow> Some (Inl e)
                  | Inr c \<Rightarrow>
                     Some (Inr (st'
                       \<lparr>num_colors_to_include :=
                          (if c = 0 then num_colors_to_include st' - 1
                           else num_colors_to_include st' + 1),
                        current_best_valid_coloring :=
                          (case current_best_valid_coloring st' of
                             BestIsColors \<Rightarrow> BestOld colors
                           | best \<Rightarrow> best),
                        attempts_made := attempts_made st' @
                          [\<lparr>palette = curr_colors_list,
                            start_gen = adaptive_gen st,
                            initial_colors = initial_random_colors,
                            final_colors = colors,
                            rounds = curr_color_list_iteration,
                            verdict = (if c = 0 then Converged else Exhausted)\<rparr>]\<rparr>))))))"

text \<open>
  The outer loop \<^verbatim>\<open>while iteration < max_total_iterations\<close>. The counter goes up only
  inside the inner loop, so nothing bounds the number of attempts: the loop is a partial
  function, as the perturbation is.
\<close>

partial_function (option) adaptive_loop ::
  "adaptive_config \<Rightarrow> adaptive_state \<Rightarrow> (error + adaptive_state) option" where
  "adaptive_loop cfg st =
     (if iteration st < cfg_max_total_iterations cfg then
        (case adaptive_attempt cfg st of
           None \<Rightarrow> None
         | Some (Inl e) \<Rightarrow> Some (Inl e)
         | Some (Inr st') \<Rightarrow> adaptive_loop cfg st')
      else Some (Inr st))"

text \<open>The variables as lines 130 to 166 of part 2 set them, for a graph and a random source.\<close>

definition part_2_start :: "adaptive_config \<Rightarrow> adj_matrix \<Rightarrow> rng \<Rightarrow> adaptive_state" where
  "part_2_start cfg adj_matrix g =
     \<lparr>graph = adj_matrix,
      iteration = 0,
      num_colors_to_include = int (length (cfg_colors cfg)),
      current_best_valid_coloring = NoBest,
      lowest_conflicts_achieved_for_current_graph = None,
      best_num_colors_achieved_over_iterations = [],
      iterations_where_solution_available_for_graph = [],
      lowest_conflicts_over_iterations = [],
      iterations_where_graph_perturbed = [],
      attempts_made = [],
      adaptive_gen = g\<rparr>"

text \<open>Part 2 from the graph on.\<close>

definition part_2_loop ::
  "adaptive_config \<Rightarrow> adj_matrix \<Rightarrow> rng \<Rightarrow> (error + adaptive_state) option" where
  "part_2_loop cfg adj_matrix g = adaptive_loop cfg (part_2_start cfg adj_matrix g)"

text \<open>The configuration written at module level in both scripts.\<close>

definition all_available_colors :: "color list" where
  "all_available_colors =
     [''cyan'', ''magenta'', ''red'', ''green'', ''blue'', ''yellow'', ''purple'', ''lime'',
      ''orange'', ''maroon'', ''lightsteelblue'', ''navy'']"

definition prob_of_node_changing_color :: real where
  "prob_of_node_changing_color = 4 / 10"

definition max_iterations_per_color_list :: nat where
  "max_iterations_per_color_list = 500"

text \<open>The configuration of part 2, with the exact quotient for the division.\<close>

definition part_2_config :: adaptive_config where
  "part_2_config =
     \<lparr>cfg_colors = all_available_colors,
      cfg_prob_change = prob_of_node_changing_color,
      cfg_max_total_iterations = 11500,
      cfg_max_per_color_list = max_iterations_per_color_list,
      cfg_perturb_freq_in_iters = 2000,
      cfg_division = (/)\<rparr>"

section \<open>Notions used to state the properties\<close>

text \<open>
  A conflict as the data model defines it: an unordered pair of distinct adjacent nodes
  that hold the same colour.
\<close>

definition conflict_pairs :: "adj_matrix \<Rightarrow> coloring \<Rightarrow> nat set set" where
  "conflict_pairs adj_matrix colors =
     {{a, b} | a b. a < length adj_matrix \<and> b < length adj_matrix \<and> a \<noteq> b
                    \<and> adj_matrix ! a ! b = 1 \<and> colors ! a = colors ! b}"

text \<open>The test made by \<^verbatim>\<open>get_color_conflicts\<close> at the entry \<open>(i, j)\<close> below the diagonal.\<close>

definition conflict_below :: "adj_matrix \<Rightarrow> coloring \<Rightarrow> nat \<Rightarrow> nat \<Rightarrow> bool" where
  "conflict_below adj_matrix colors i j \<longleftrightarrow>
     adj_matrix ! i ! j = 1 \<and> colors ! i = colors ! j"

definition below_pairs :: "adj_matrix \<Rightarrow> coloring \<Rightarrow> (nat \<times> nat) set" where
  "below_pairs adj_matrix colors =
     (SIGMA i:{..<length adj_matrix}. {j. j < i \<and> conflict_below adj_matrix colors i j})"

text \<open>
  The invariant of the data model, as tests on a matrix: entry \<open>(a, b)\<close> equals entry
  \<open>(b, a)\<close> for all node ids (a missing entry differs from a present one), and every
  diagonal entry is \<open>0\<close>.
\<close>

definition adj_symmetric :: "adj_matrix \<Rightarrow> bool" where
  "adj_symmetric adj_matrix =
     list_all (\<lambda>a. list_all (\<lambda>b. list_get (adj_matrix ! a) b = list_get (adj_matrix ! b) a)
                       [0..<length adj_matrix]) [0..<length adj_matrix]"

definition adj_loop_free :: "adj_matrix \<Rightarrow> bool" where
  "adj_loop_free adj_matrix =
     list_all (\<lambda>a. list_get (adj_matrix ! a) a = Inr 0) [0..<length adj_matrix]"

text \<open>
  A graph with zero edges, as \<^verbatim>\<open>get_color_conflicts\<close> sees it: every entry below the
  diagonal is present and is not \<open>1\<close>.
\<close>

definition edgeless :: "adj_matrix \<Rightarrow> bool" where
  "edgeless adj_matrix =
     list_all (\<lambda>i. list_all (\<lambda>j. j < length (adj_matrix ! i) \<and> adj_matrix ! i ! j \<noteq> 1) [0..<i])
       [0..<length adj_matrix]"

text \<open>
  The colours held by the neighbours of a node: the entries of its row that equal \<open>1\<close>
  name the neighbours.
\<close>

definition neighbour_color_set :: "adj_matrix \<Rightarrow> coloring \<Rightarrow> nat \<Rightarrow> color set" where
  "neighbour_color_set adj_matrix colors node =
     {colors ! n | n. n < length (adj_matrix ! node) \<and> adj_matrix ! node ! n = 1}"

text \<open>
  Position \<open>k\<close> is the first one of the active palette whose colour no neighbour holds.
\<close>

definition first_free :: "color list \<Rightarrow> color set \<Rightarrow> nat \<Rightarrow> bool" where
  "first_free curr_colors_list held k \<longleftrightarrow>
     k < length curr_colors_list \<and> curr_colors_list ! k \<notin> held
     \<and> (\<forall>j < k. curr_colors_list ! j \<in> held)"

text \<open>The final colouring of the last converged attempt of a sequence of attempts.\<close>

definition last_converged :: "attempt_result list \<Rightarrow> coloring option" where
  "last_converged tr =
     (case filter (\<lambda>a. verdict a = Converged) tr of
        [] \<Rightarrow> None
      | c # cs \<Rightarrow> Some (final_colors (last (c # cs))))"

text \<open>
  The write made at line 110 of part 2, on the pair \<open>(i, j)\<close>: the entry becomes \<open>1\<close> when
  it is \<open>0\<close> and \<open>0\<close> otherwise.
\<close>

definition flip_entry :: "adj_matrix \<Rightarrow> nat \<times> nat \<Rightarrow> adj_matrix" where
  "flip_entry A ij =
     (case ij of (i, j) \<Rightarrow> A[i := (A ! i)[j := (if A ! i ! j = 0 then 1 else 0)]])"


text \<open>
  The history of toggles accounts for the state: the matrix is the matrix at the call
  with the toggles of the history applied in order, the counter is their number, and
  every toggle is on a pair \<open>(i, j)\<close> with \<open>j < i\<close> of node ids.
\<close>

definition toggles_account :: "adj_matrix \<Rightarrow> perturb_state \<Rightarrow> bool" where
  "toggles_account adj_matrix s \<longleftrightarrow>
     adj s = foldl flip_entry adj_matrix (toggled s)
     \<and> adjacencies_reversed s = int (length (toggled s))
     \<and> list_all (\<lambda>(i, j). j < i \<and> i < length adj_matrix) (toggled s)"

text \<open>
  An attempt starts from a fresh draw: its first colouring is what
  \<^verbatim>\<open>rand_initialise_colors\<close> returns for the graph, the active palette of the attempt and
  the random source as the attempt found it, a function of these three alone; and the
  colours it starts and ends with are colours of its active palette.
\<close>

definition drawn_afresh :: "adj_matrix \<Rightarrow> attempt_result \<Rightarrow> bool" where
  "drawn_afresh adj_matrix a \<longleftrightarrow>
     map_sum id fst (rand_initialise_colors adj_matrix (palette a) (start_gen a))
       = Inr (initial_colors a)
     \<and> set (initial_colors a) \<subseteq> set (palette a)
     \<and> set (final_colors a) \<subseteq> set (palette a)"

text \<open>
  What the adaptive loop keeps between attempts: the number of nodes of the graph, and
  that every attempt made so far started from a fresh draw.
\<close>

definition attempts_fresh :: "adj_matrix \<Rightarrow> adaptive_state \<Rightarrow> bool" where
  "attempts_fresh A st \<longleftrightarrow>
     length (graph st) = length A \<and> (\<forall>a \<in> set (attempts_made st). drawn_afresh A a)"

section \<open>Conflict counting\<close>

subsection \<open>Only the entries below the diagonal are read\<close>

lemma conflicts_row_below_diag:
  assumes "i < length A" and "i < length B"
    and "\<forall>j \<in> set js. list_get (A ! i) j = list_get (B ! i) j"
  shows "conflicts_row A colors i js c = conflicts_row B colors i js c"
  using assms(3)
proof (induction js arbitrary: c)
  case Nil
  show ?case by simp
next
  case (Cons j js)
  have "list_get (A ! i) j = list_get (B ! i) j"
    using Cons.prems by simp
  moreover have "\<And>c'. conflicts_row A colors i js c' = conflicts_row B colors i js c'"
    using Cons by simp
  ultimately show ?case
    using assms(1,2) by (simp add: list_get_def split: sum.splits)
qed

lemma conflicts_rows_below_diag:
  assumes "length A = length B"
    and "\<forall>i < length A. \<forall>j < i. list_get (A ! i) j = list_get (B ! i) j"
    and "\<forall>i \<in> set ns. i < length A"
  shows "conflicts_rows A colors ns c = conflicts_rows B colors ns c"
  using assms(3)
proof (induction ns arbitrary: c)
  case Nil
  show ?case by simp
next
  case (Cons i ns)
  have i: "i < length A" using Cons.prems by simp
  have "conflicts_row A colors i [0..<i] c = conflicts_row B colors i [0..<i] c"
    using i assms(1,2) by (intro conflicts_row_below_diag) auto
  moreover have "\<And>c'. conflicts_rows A colors ns c' = conflicts_rows B colors ns c'"
    using Cons by simp
  ultimately show ?case by (simp split: sum.splits)
qed

text \<open>
  C10: two adjacency matrices with the same number of rows that agree on every entry
  \<open>adj[i][j]\<close> with \<open>j < i\<close> (the same value, or missing in both) give the same result of
  \<^verbatim>\<open>get_color_conflicts\<close> for every colouring, whatever stands on and above the diagonal.
\<close>

theorem get_color_conflicts_sub_diagonal:
  assumes "length A = length B"
    and "\<forall>i < length A. \<forall>j < i. list_get (A ! i) j = list_get (B ! i) j"
  shows "get_color_conflicts A colors = get_color_conflicts B colors"
  unfolding get_color_conflicts_def
  using conflicts_rows_below_diag [OF assms, of "[0..<length A]" colors 0] assms(1) by simp

theorem get_color_conflicts_sub_diagonal_witness:
  "length [[0, 1], [1, 0 :: int]] = length [[0, 0], [1, 1 :: int]]
   \<and> get_color_conflicts [[0, 1], [1, 0]] [''red'', ''red''] = Inr 1
   \<and> get_color_conflicts [[0, 0], [1, 1]] [''red'', ''red''] = Inr 1"
proof -
  have l: "length [[0, 1], [1, 0 :: int]] = length [[0, 0], [1, 1 :: int]]"
    by simp
  have t: "\<forall>i < length [[0, 1], [1, 0 :: int]]. \<forall>j < i.
             list_get ([[0, 1], [1, 0 :: int]] ! i) j = list_get ([[0, 0], [1, 1 :: int]] ! i) j"
    by (simp add: less_Suc_eq list_get_def)
  have "get_color_conflicts [[0, 1], [1, 0]] [''red'', ''red''] = Inr 1"
    by (simp add: get_color_conflicts_def list_get_def get_node_color_def)
  then show ?thesis
    using get_color_conflicts_sub_diagonal [OF l t, of "[''red'', ''red'']"] l by simp
qed

subsection \<open>The count is the number of conflicting unordered pairs\<close>

lemma conflicts_row_count:
  assumes "i < length A" and "i \<le> length (A ! i)" and "i < length colors"
    and "\<forall>j \<in> set js. j < i"
  shows "conflicts_row A colors i js c =
           Inr (c + length (filter (conflict_below A colors i) js))"
  using assms(4)
proof (induction js arbitrary: c)
  case Nil
  show ?case by simp
next
  case (Cons j js)
  have j: "j < i" using Cons.prems by simp
  have ih: "\<And>c'. conflicts_row A colors i js c' =
              Inr (c' + length (filter (conflict_below A colors i) js))"
    using Cons by simp
  have cb: "conflict_below A colors i j \<longleftrightarrow> A ! i ! j = 1 \<and> colors ! i = colors ! j"
    by (simp add: conflict_below_def)
  show ?case
    using assms(1-3) j by (simp add: ih list_get_def get_node_color_def cb)
qed

lemma conflicts_rows_count:
  assumes "\<forall>i < length A. i \<le> length (A ! i)" and "length A \<le> length colors"
    and "\<forall>i \<in> set ns. i < length A"
  shows "conflicts_rows A colors ns c =
           Inr (c + sum_list (map (\<lambda>i. length (filter (conflict_below A colors i) [0..<i])) ns))"
  using assms(3)
proof (induction ns arbitrary: c)
  case Nil
  show ?case by simp
next
  case (Cons i ns)
  have i: "i < length A" using Cons.prems by simp
  have row: "conflicts_row A colors i [0..<i] c =
               Inr (c + length (filter (conflict_below A colors i) [0..<i]))"
    using i assms(1,2) by (intro conflicts_row_count) auto
  have ih: "\<And>c'. conflicts_rows A colors ns c' =
           Inr (c' + sum_list (map (\<lambda>i. length (filter (conflict_below A colors i) [0..<i])) ns))"
    using Cons by simp
  show ?case by (simp add: row ih)
qed

lemma filter_upt_card: "length (filter Q [0..<i]) = card {j. j < i \<and> Q j}"
proof -
  have "length (filter Q [0..<i]) = card (set (filter Q [0..<i]))"
    by (rule distinct_card [symmetric]) simp
  also have "set (filter Q [0..<i]) = {j. j < i \<and> Q j}"
    by auto
  finally show ?thesis .
qed

lemma card_below_pairs:
  "card (below_pairs A colors) =
     sum_list (map (\<lambda>i. length (filter (conflict_below A colors i) [0..<i])) [0..<length A])"
proof -
  have "card (below_pairs A colors) =
          (\<Sum>i\<in>{..<length A}. card {j. j < i \<and> conflict_below A colors i j})"
    unfolding below_pairs_def by (rule card_SigmaI) auto
  also have "\<dots> = (\<Sum>i\<in>{..<length A}. length (filter (conflict_below A colors i) [0..<i]))"
    by (simp add: filter_upt_card)
  also have "\<dots> = sum_list (map (\<lambda>i. length (filter (conflict_below A colors i) [0..<i]))
                       [0..<length A])"
    by (simp add: interv_sum_list_conv_sum_set_nat atLeast0LessThan)
  finally show ?thesis .
qed

lemma get_color_conflicts_below:
  assumes "\<forall>i < length A. i \<le> length (A ! i)" and "length A \<le> length colors"
  shows "get_color_conflicts A colors = Inr (card (below_pairs A colors))"
  unfolding get_color_conflicts_def
  using conflicts_rows_count [OF assms, of "[0..<length A]" 0]
  by (simp add: card_below_pairs)

lemma conflict_pairs_image:
  assumes "\<forall>a < length A. \<forall>b < length A. A ! a ! b = A ! b ! a"
  shows "conflict_pairs A colors = (\<lambda>(i, j). {i, j}) ` below_pairs A colors"
proof (intro set_eqI iffI)
  fix e assume "e \<in> conflict_pairs A colors"
  then obtain a b where e: "e = {a, b}" and ab: "a < length A" "b < length A" "a \<noteq> b"
      "A ! a ! b = 1" "colors ! a = colors ! b"
    unfolding conflict_pairs_def by blast
  show "e \<in> (\<lambda>(i, j). {i, j}) ` below_pairs A colors"
  proof (cases "b < a")
    case True
    then have "(a, b) \<in> below_pairs A colors"
      using ab by (simp add: below_pairs_def conflict_below_def)
    then show ?thesis using e by force
  next
    case False
    then have "a < b" using ab(3) by simp
    moreover have "A ! b ! a = 1" using assms ab by simp
    ultimately have "(b, a) \<in> below_pairs A colors"
      using ab by (simp add: below_pairs_def conflict_below_def)
    moreover have "e = {b, a}" using e by auto
    ultimately show ?thesis by force
  qed
next
  fix e assume "e \<in> (\<lambda>(i, j). {i, j}) ` below_pairs A colors"
  then obtain i j where e: "e = {i, j}"
    and ij: "i < length A" "j < i" "conflict_below A colors i j"
    by (auto simp: below_pairs_def)
  then show "e \<in> conflict_pairs A colors"
    unfolding conflict_pairs_def conflict_below_def by force
qed

lemma inj_on_below_pairs: "inj_on (\<lambda>(i, j). {i, j}) (below_pairs A colors)"
  unfolding inj_on_def below_pairs_def by (auto simp: doubleton_eq_iff)

text \<open>
  C8: \<^verbatim>\<open>get_color_conflicts\<close> is a function of the matrix and the colouring alone, and on
  a square symmetric matrix with one colour per node it returns the number of unordered
  pairs of distinct adjacent nodes that share a colour, each pair once: the loops visit
  only the entries \<open>(node_1, node_2)\<close> with \<open>node_2 < node_1\<close>.
\<close>

theorem get_color_conflicts_counts_pairs_once:
  assumes "\<forall>i < length adj_matrix. length (adj_matrix ! i) = length adj_matrix"
    and "\<forall>a < length adj_matrix. \<forall>b < length adj_matrix.
           adj_matrix ! a ! b = adj_matrix ! b ! a"
    and "length colors = length adj_matrix"
  shows "get_color_conflicts adj_matrix colors = Inr (card (conflict_pairs adj_matrix colors))
         \<and> get_color_conflicts adj_matrix colors = Inr (card (below_pairs adj_matrix colors))"
proof -
  have "get_color_conflicts adj_matrix colors = Inr (card (below_pairs adj_matrix colors))"
    using assms(1,3) by (intro get_color_conflicts_below) auto
  moreover have "card (conflict_pairs adj_matrix colors) = card (below_pairs adj_matrix colors)"
    unfolding conflict_pairs_image [OF assms(2)] by (rule card_image) (rule inj_on_below_pairs)
  ultimately show ?thesis by simp
qed

theorem get_color_conflicts_counts_pairs_once_witness:
  "length [''red'', ''red'', ''blue''] = length [[0, 1, 1], [1, 0, 0], [1, 0, 0 :: int]]
   \<and> get_color_conflicts [[0, 1, 1], [1, 0, 0], [1, 0, 0]] [''red'', ''red'', ''blue''] = Inr 1
   \<and> card (conflict_pairs [[0, 1, 1], [1, 0, 0], [1, 0, 0]] [''red'', ''red'', ''blue'']) = 1"
proof -
  have sq: "\<forall>i < length [[0, 1, 1], [1, 0, 0], [1, 0, 0 :: int]].
      length ([[0, 1, 1], [1, 0, 0], [1, 0, 0 :: int]] ! i)
        = length [[0, 1, 1], [1, 0, 0], [1, 0, 0 :: int]]"
    by (simp add: less_Suc_eq)
  have sym: "\<forall>a < length [[0, 1, 1], [1, 0, 0], [1, 0, 0 :: int]].
       \<forall>b < length [[0, 1, 1], [1, 0, 0], [1, 0, 0 :: int]].
         [[0, 1, 1], [1, 0, 0], [1, 0, 0 :: int]] ! a ! b
           = [[0, 1, 1], [1, 0, 0], [1, 0, 0 :: int]] ! b ! a"
    by (simp add: less_Suc_eq)
  have len: "length [''red'', ''red'', ''blue''] = length [[0, 1, 1], [1, 0, 0], [1, 0, 0 :: int]]"
    by simp
  have run: "get_color_conflicts [[0, 1, 1], [1, 0, 0], [1, 0, 0]] [''red'', ''red'', ''blue'']
               = Inr 1"
    by (simp add: get_color_conflicts_def list_get_def get_node_color_def)
  show ?thesis
    using get_color_conflicts_counts_pairs_once [OF sq sym len] len run by simp
qed

section \<open>Perturbation\<close>

subsection \<open>What the toggle counter counts\<close>

lemma length_flip_entry: "length (flip_entry A ij) = length A"
  by (cases ij) (simp add: flip_entry_def)

lemma length_foldl_flip_entry: "length (foldl flip_entry A ps) = length A"
  by (induction ps arbitrary: A) (simp_all add: length_flip_entry)

lemma scan_row_account:
  assumes "scan_row truediv num max_edges node_1 js s = Inr s'"
    and "toggles_account A s" and "\<forall>j \<in> set js. j < node_1"
  shows "toggles_account A s'"
  using assms
proof (induction js arbitrary: s)
  case Nil
  then show ?case by simp
next
  case (Cons node_2 rest)
  define g where "g = snd (random_random (gen s))"
  have below: "node_2 < node_1" and rest: "\<forall>j \<in> set rest. j < node_1"
    using Cons.prems(3) by simp_all
  show ?case
  proof (cases "fst (random_random (gen s)) < truediv (real_of_int num) max_edges")
    case True
    let ?s1 = "s\<lparr>adj := flip_entry (adj s) (node_1, node_2),
                   adjacencies_reversed := adjacencies_reversed s + 1,
                   toggled := toggled s @ [(node_1, node_2)],
                   gen := g\<rparr>"
    from Cons.prems(1) True have inb: "node_1 < length (adj s)"
      and next_state: "scan_row truediv num max_edges node_1 rest ?s1 = Inr s'"
      by (auto simp: case_prod_beta list_get_def flip_entry_def g_def
          split: if_splits sum.splits)
    have "length (adj s) = length A"
      using Cons.prems(2) by (simp add: toggles_account_def length_foldl_flip_entry)
    then have "toggles_account A ?s1"
      using Cons.prems(2) inb below by (simp add: toggles_account_def)
    then show ?thesis
      using Cons.IH [OF next_state _ rest] by simp
  next
    case False
    from Cons.prems(1) False
    have next_state: "scan_row truediv num max_edges node_1 rest (s\<lparr>gen := g\<rparr>) = Inr s'"
      by (auto simp: case_prod_beta g_def split: if_splits)
    have "toggles_account A (s\<lparr>gen := g\<rparr>)"
      using Cons.prems(2) by (simp add: toggles_account_def)
    then show ?thesis
      using Cons.IH [OF next_state _ rest] by simp
  qed
qed

lemma scan_rows_account:
  assumes "scan_rows truediv num max_edges ns s = Inr s'"
    and "toggles_account A s"
  shows "toggles_account A s'"
  using assms
proof (induction ns arbitrary: s)
  case Nil
  then show ?case by simp
next
  case (Cons node_1 rest)
  from Cons.prems(1) obtain s1 where
    row: "scan_row truediv num max_edges node_1 [0..<node_1] s = Inr s1"
    and more: "scan_rows truediv num max_edges rest s1 = Inr s'"
    by (auto split: sum.splits)
  have "toggles_account A s1"
    using row Cons.prems(2) by (rule scan_row_account) simp
  then show ?case using Cons.IH [OF more] by simp
qed

lemma reverse_loop_account:
  assumes "reverse_loop truediv num max_edges s = Some r"
  shows "toggles_account A s \<longrightarrow>
           (\<forall>s'. r = Inr s' \<longrightarrow> toggles_account A s' \<and> num \<le> adjacencies_reversed s')"
proof (rule reverse_loop.raw_induct
    [where P = "\<lambda>truediv num max_edges s r. toggles_account A s \<longrightarrow>
           (\<forall>s'. r = Inr s' \<longrightarrow> toggles_account A s' \<and> num \<le> adjacencies_reversed s')"])
  show "reverse_loop truediv num max_edges s = Some r" by (rule assms)
next
  fix f :: "truediv \<Rightarrow> int \<Rightarrow> real \<Rightarrow> perturb_state \<Rightarrow> (error + perturb_state) option"
    and truediv num max_edges s r
  assume ih: "\<And>truediv num max_edges s r. f truediv num max_edges s = Some r
                \<Longrightarrow> toggles_account A s \<longrightarrow>
           (\<forall>s'. r = Inr s' \<longrightarrow> toggles_account A s' \<and> num \<le> adjacencies_reversed s')"
    and body: "(if adjacencies_reversed s < num then
        (case scan_rows truediv num max_edges [0..<length (adj s)] s of
           Inl e \<Rightarrow> Some (Inl e)
         | Inr s' \<Rightarrow> f truediv num max_edges s')
      else Some (Inr s)) = Some r"
  show "toggles_account A s \<longrightarrow>
           (\<forall>s'. r = Inr s' \<longrightarrow> toggles_account A s' \<and> num \<le> adjacencies_reversed s')"
  proof (intro impI allI)
    fix s' assume acc: "toggles_account A s" and r: "r = Inr s'"
    show "toggles_account A s' \<and> num \<le> adjacencies_reversed s'"
    proof (cases "adjacencies_reversed s < num")
      case True
      then obtain s1 where
        scan: "scan_rows truediv num max_edges [0..<length (adj s)] s = Inr s1"
        and again: "f truediv num max_edges s1 = Some r"
        using body r by (auto split: sum.splits)
      have "toggles_account A s1"
        using scan acc by (rule scan_rows_account)
      then show ?thesis using ih [OF again] r by blast
    next
      case False
      then show ?thesis using body r acc by auto
    qed
  qed
qed





subsection \<open>Symmetry\<close>

text \<open>
  C1: the perturbation writes only the entry \<^verbatim>\<open>adj_matrix[node_1][node_2]\<close> below the
  diagonal and never its mirror image. On the empty graph on two nodes, with a count of
  one and a first draw of \<open>0.0\<close>, the symmetric loop-free matrix comes back with entry
  \<open>(1, 0)\<close> set and entry \<open>(0, 1)\<close> clear. The quotient is \<open>1 / 1.0 = 1.0\<close>.
\<close>

theorem reverse_n_adjacencies_breaks_symmetry:
  "adj_symmetric [[0, 0], [0, 0]] \<and> adj_loop_free [[0, 0], [0, 0]]
   \<and> reverse_n_adjacencies (/) [[0, 0], [0, 0]] 1 (sconst 0)
       = Some (Inr \<lparr>adj = [[0, 0], [1, 0]], adjacencies_reversed = 1, toggled = [(1, 0)],
                     gen = sconst 0\<rparr>)
   \<and> \<not> adj_symmetric [[0, 0], [1, 0]]"
  by (simp add: adj_symmetric_def adj_loop_free_def reverse_n_adjacencies_def
      reverse_loop.simps random_random_def list_get_def)

subsection \<open>Graphs without a possible edge\<close>

lemma degenerate_scan:
  assumes "length (adj s) \<le> 1"
  shows "scan_rows truediv num max_edges [0..<length (adj s)] s = Inr s"
proof -
  have "length (adj s) = 0 \<or> length (adj s) = 1" using assms by linarith
  then show ?thesis by auto
qed

lemma degenerate_loop_diverges:
  assumes "reverse_loop truediv num max_edges s = Some r"
  shows "\<not> (length (adj s) \<le> 1 \<and> adjacencies_reversed s < num)"
proof (rule reverse_loop.raw_induct
    [where P = "\<lambda>truediv num max_edges s r.
                  \<not> (length (adj s) \<le> 1 \<and> adjacencies_reversed s < num)"])
  show "reverse_loop truediv num max_edges s = Some r" by (rule assms)
next
  fix f :: "truediv \<Rightarrow> int \<Rightarrow> real \<Rightarrow> perturb_state \<Rightarrow> (error + perturb_state) option"
    and truediv num max_edges s r
  assume ih: "\<And>truediv num max_edges s r. f truediv num max_edges s = Some r
                \<Longrightarrow> \<not> (length (adj s) \<le> 1 \<and> adjacencies_reversed s < num)"
    and body: "(if adjacencies_reversed s < num then
        (case scan_rows truediv num max_edges [0..<length (adj s)] s of
           Inl e \<Rightarrow> Some (Inl e)
         | Inr s' \<Rightarrow> f truediv num max_edges s')
      else Some (Inr s)) = Some r"
  show "\<not> (length (adj s) \<le> 1 \<and> adjacencies_reversed s < num)"
  proof
    assume deg: "length (adj s) \<le> 1 \<and> adjacencies_reversed s < num"
    then have "f truediv num max_edges s = Some r"
      using body by (simp add: degenerate_scan)
    then show False using ih deg by blast
  qed
qed

lemma degenerate_none:
  assumes "length adj_matrix \<le> 1" and "0 < num"
  shows "reverse_n_adjacencies truediv adj_matrix num g = None"
proof (cases "reverse_n_adjacencies truediv adj_matrix num g")
  case None
  then show ?thesis .
next
  case (Some r)
  then have False
    unfolding reverse_n_adjacencies_def Let_def
    using assms degenerate_loop_diverges by fastforce
  then show ?thesis ..
qed

section \<open>The node decision rule\<close>

lemma neighbour_colors_ok:
  assumes "\<forall>n \<in> set ns. n < length colors"
  shows "neighbour_colors ns colors = Inr (map (\<lambda>n. colors ! n) ns)"
  using assms by (induction ns) (simp_all add: get_node_color_def list_get_def)

lemma choose_color_none:
  assumes "\<forall>c \<in> set pal. c \<in> held"
  shows "choose_color pal held node colors = colors"
  using assms by (induction pal) simp_all

lemma choose_color_first:
  assumes "first_free pal held k"
  shows "choose_color pal held node colors = colors[node := pal ! k]"
  using assms
proof (induction pal arbitrary: k)
  case Nil
  then show ?case by (simp add: first_free_def)
next
  case (Cons c pal)
  show ?case
  proof (cases k)
    case 0
    then show ?thesis using Cons.prems by (simp add: first_free_def)
  next
    case (Suc k')
    have "c \<in> held" using Cons.prems Suc by (auto simp: first_free_def)
    moreover have "first_free pal held k'"
      using Cons.prems Suc unfolding first_free_def by auto
    ultimately show ?thesis using Cons.IH [of k'] Suc by simp
  qed
qed

lemma node_step_eq:
  assumes "node < length adj_matrix" and "node < length colors"
    and "\<forall>n < length (adj_matrix ! node). adj_matrix ! node ! n = 1 \<longrightarrow> n < length colors"
  shows "node_step adj_matrix pal p node colors g =
           (if colors ! node \<in> neighbour_color_set adj_matrix colors node then
              (if fst (random_random g) < p
               then Inr (choose_color pal (neighbour_color_set adj_matrix colors node) node colors,
                         snd (random_random g))
               else Inr (colors, snd (random_random g)))
            else Inr (colors, g))"
proof -
  let ?ns = "filter (\<lambda>n. adj_matrix ! node ! n = 1) [0..<length (adj_matrix ! node)]"
  have nb: "get_node_neighbours node adj_matrix = Inr ?ns"
    using assms(1) by (simp add: get_node_neighbours_def list_get_def)
  have "\<forall>n \<in> set ?ns. n < length colors" using assms(3) by auto
  then have nc: "neighbour_colors ?ns colors = Inr (map (\<lambda>n. colors ! n) ?ns)"
    by (rule neighbour_colors_ok)
  have set_eq: "set (map (\<lambda>n. colors ! n) ?ns) = neighbour_color_set adj_matrix colors node"
    unfolding neighbour_color_set_def by auto
  have own: "get_node_color node colors = Inr (colors ! node)"
    using assms(2) by (simp add: get_node_color_def list_get_def)
  show ?thesis
    unfolding node_step_def nb sum.case nc own Let_def set_eq
    by (simp add: case_prod_beta)
qed

text \<open>
  C7: the decision of one node, for a node that has a colour and whose neighbours all
  have one. (a) When no neighbour holds the node's colour, nothing changes and no draw is
  made. (b) Otherwise one draw \<open>u\<close> is made: when \<open>u\<close> is not below
  \<^verbatim>\<open>prob_of_node_changing_color\<close> the colouring stays; when it is, the node takes the
  first colour of the active palette, in its order, that no neighbour holds, and keeps
  its colour when every colour of the active palette is held by some neighbour.
\<close>

theorem node_decision_rule:
  assumes "node < length adj_matrix" and "node < length colors"
    and "\<forall>n < length (adj_matrix ! node). adj_matrix ! node ! n = 1 \<longrightarrow> n < length colors"
    and "held = neighbour_color_set adj_matrix colors node"
    and "random_random g = (u, g')"
  shows "(colors ! node \<notin> held \<longrightarrow>
            node_step adj_matrix curr_colors_list p node colors g = Inr (colors, g))
       \<and> (colors ! node \<in> held \<and> \<not> u < p \<longrightarrow>
            node_step adj_matrix curr_colors_list p node colors g = Inr (colors, g'))
       \<and> (colors ! node \<in> held \<and> u < p \<and> first_free curr_colors_list held k \<longrightarrow>
            node_step adj_matrix curr_colors_list p node colors g
              = Inr (colors[node := curr_colors_list ! k], g'))
       \<and> (colors ! node \<in> held \<and> u < p \<and> (\<forall>c \<in> set curr_colors_list. c \<in> held) \<longrightarrow>
            node_step adj_matrix curr_colors_list p node colors g = Inr (colors, g'))"
  using node_step_eq [OF assms(1-3), of curr_colors_list p g] assms(4,5)
  by (auto simp: choose_color_first choose_color_none)

text \<open>
  Two adjacent nodes both coloured cyan, palette cyan, magenta: node \<open>0\<close> draws \<open>0.0\<close> and
  takes magenta.
\<close>

theorem node_decision_rule_witness:
  "node_step [[0, 1], [1, 0]] [''cyan'', ''magenta''] (4 / 10) 0 [''cyan'', ''cyan''] (sconst 0)
     = Inr ([''magenta'', ''cyan''], sconst 0)"
proof -
  have h: "neighbour_color_set [[0, 1], [1, 0]] [''cyan'', ''cyan''] 0 = {''cyan''}"
    unfolding neighbour_color_set_def by (auto simp: less_Suc_eq intro!: exI [of _ "Suc 0"])
  have ff: "first_free [''cyan'', ''magenta''] {''cyan''} 1"
    by (simp add: first_free_def)
  have wf: "\<forall>n < length ([[0, 1], [1, 0 :: int]] ! 0). [[0, 1], [1, 0 :: int]] ! 0 ! n = 1
              \<longrightarrow> n < length [''cyan'', ''cyan'']"
    by simp
  have rr: "random_random (sconst 0) = (0, sconst 0)"
    by (simp add: random_random_def)
  show ?thesis
    using node_decision_rule [of 0 "[[0, 1], [1, 0]]" "[''cyan'', ''cyan'']" "{''cyan''}"
        "sconst 0" 0 "sconst 0" "[''cyan'', ''magenta'']" "4 / 10" 1, OF _ _ wf h [symmetric] rr] ff
    by simp
qed

section \<open>Attempts\<close>

lemma init_colors_loop_subset:
  assumes "init_colors_loop colors_list ns colors g = Inr (cs, g')"
  shows "set cs \<subseteq> set colors \<union> set colors_list \<and> length cs = length colors + length ns"
  using assms
proof (induction ns arbitrary: colors g)
  case Nil
  then show ?case by simp
next
  case (Cons n ns)
  from Cons.prems obtain k g1 where
    draw: "random_randint 0 (int (length colors_list) - 1) g = Inr (k, g1)"
    and inb: "nat k < length colors_list"
    and rest: "init_colors_loop colors_list ns (colors @ [colors_list ! nat k]) g1 = Inr (cs, g')"
    by (auto simp: list_get_def split: sum.splits if_splits)
  have "colors_list ! nat k \<in> set colors_list" using inb by simp
  then show ?case using Cons.IH [OF rest] by auto
qed

lemma rand_initialise_colors_subset:
  assumes "rand_initialise_colors adj_matrix colors_list g = Inr (cs, g')"
  shows "set cs \<subseteq> set colors_list \<and> length cs = length adj_matrix"
  using init_colors_loop_subset [of colors_list "[0..<length adj_matrix]" "[]" g cs g'] assms
  by (simp add: rand_initialise_colors_def)

lemma init_colors_loop_total:
  assumes "colors_list \<noteq> []"
  shows "\<exists>cs g'. init_colors_loop colors_list ns colors g = Inr (cs, g')"
proof (induction ns arbitrary: colors g)
  case Nil
  show ?case by simp
next
  case (Cons n ns)
  have pos: "0 < int (length colors_list)" using assms by simp
  have draw: "random_randint 0 (int (length colors_list) - 1) g
                = Inr (int (shd g) mod int (length colors_list), stl g)"
    using pos by (simp add: random_randint_def)
  have "int (shd g) mod int (length colors_list) < int (length colors_list)"
    using pos by simp
  moreover have "0 \<le> int (shd g) mod int (length colors_list)"
    using pos by simp
  ultimately have inb: "nat (int (shd g) mod int (length colors_list)) < length colors_list"
    by linarith
  show ?case
    using Cons.IH [of "colors @ [colors_list ! nat (int (shd g) mod int (length colors_list))]" "stl g"]
    by (simp add: draw list_get_def inb)
qed

lemma rand_initialise_colors_total:
  assumes "colors_list \<noteq> []"
  shows "\<exists>cs g'. rand_initialise_colors adj_matrix colors_list g = Inr (cs, g')"
  unfolding rand_initialise_colors_def using assms by (rule init_colors_loop_total)

lemma choose_color_subset:
  "set (choose_color pal held node colors) \<subseteq> set colors \<union> set pal
   \<and> length (choose_color pal held node colors) = length colors"
proof (induction pal)
  case Nil
  show ?case by simp
next
  case (Cons c pal)
  have "set (colors[node := c]) \<subseteq> insert c (set colors)"
    by (rule set_update_subset_insert)
  then show ?case using Cons by auto
qed

lemma node_step_subset:
  assumes "node_step adj_matrix pal p node colors g = Inr (colors', g')"
    and "set colors \<subseteq> set pal"
  shows "set colors' \<subseteq> set pal \<and> length colors' = length colors"
proof -
  have "colors' = colors \<or> (\<exists>held. colors' = choose_color pal held node colors)"
    using assms(1) unfolding node_step_def Let_def
    by (auto split: sum.splits if_splits prod.splits)
  then show ?thesis using assms(2) choose_color_subset [of pal _ node colors] by auto
qed

lemma nodes_pass_subset:
  assumes "nodes_pass adj_matrix pal p ns colors g = Inr (colors', g')"
    and "set colors \<subseteq> set pal"
  shows "set colors' \<subseteq> set pal \<and> length colors' = length colors"
  using assms
proof (induction ns arbitrary: colors g)
  case Nil
  then show ?case by simp
next
  case (Cons n ns)
  from Cons.prems(1) obtain c1 g1 where
    step: "node_step adj_matrix pal p n colors g = Inr (c1, g1)"
    and rest: "nodes_pass adj_matrix pal p ns c1 g1 = Inr (colors', g')"
    by (auto split: sum.splits)
  have c1: "set c1 \<subseteq> set pal \<and> length c1 = length colors"
    using node_step_subset [OF step Cons.prems(2)] .
  then show ?case using Cons.IH [OF rest] by simp
qed

lemma round_loop_result:
  assumes "round_loop adj_matrix pal p max_iterations k colors g = Inr (colors', n, g')"
    and "set colors \<subseteq> set pal"
  shows "set colors' \<subseteq> set pal \<and> length colors' = length colors
         \<and> k \<le> n \<and> n \<le> max k max_iterations
         \<and> (get_color_conflicts adj_matrix colors' = Inr 0 \<or> n = max k max_iterations)"
  using assms
proof (induction adj_matrix pal p max_iterations k colors g rule: round_loop.induct)
  case (1 adj_matrix pal p max_iterations k colors g)
  from "1.prems"(1) obtain c where c: "get_color_conflicts adj_matrix colors = Inr c"
    by (subst (asm) round_loop.simps) (auto split: sum.splits)
  show ?case
  proof (cases "c \<noteq> 0 \<and> k < max_iterations")
    case True
    from "1.prems"(1) True c obtain c1 g1 where
      pass: "nodes_pass adj_matrix pal p [0..<length adj_matrix] colors g = Inr (c1, g1)"
      and rest: "round_loop adj_matrix pal p max_iterations (k + 1) c1 g1 = Inr (colors', n, g')"
      by (subst (asm) round_loop.simps) (auto split: sum.splits)
    have c1: "set c1 \<subseteq> set pal \<and> length c1 = length colors"
      using nodes_pass_subset [OF pass "1.prems"(2)] .
    have "set colors' \<subseteq> set pal \<and> length colors' = length c1
         \<and> k + 1 \<le> n \<and> n \<le> max (k + 1) max_iterations
         \<and> (get_color_conflicts adj_matrix colors' = Inr 0 \<or> n = max (k + 1) max_iterations)"
      using "1.IH" [OF c _ pass _ rest] True c1 by simp
    then show ?thesis using c1 True by auto
  next
    case False
    then have "colors' = colors \<and> n = k"
      using "1.prems"(1) c by (subst (asm) round_loop.simps) auto
    then show ?thesis using "1.prems"(2) False c by auto
  qed
qed

text \<open>
  C2: when an attempt ends with zero conflicts (the test the script makes after the round
  loop), its final colouring has zero conflicts, gives one colour to each node, and uses
  only colours of the active palette \<^verbatim>\<open>curr_colors_list\<close> of that attempt.
\<close>

theorem converged_attempt:
  assumes "attempt adj_matrix curr_colors_list p max_iterations g = Inr (a, g')"
    and "verdict a = Converged"
  shows "get_color_conflicts adj_matrix (final_colors a) = Inr 0
         \<and> length (final_colors a) = length adj_matrix
         \<and> set (final_colors a) \<subseteq> set curr_colors_list"
proof -
  from assms(1) obtain init g1 ic colors n c where
    init: "rand_initialise_colors adj_matrix curr_colors_list g = Inr (init, g1)"
    and loop: "round_loop adj_matrix curr_colors_list p max_iterations 0 init g1 = Inr (colors, n, g')"
    and fin: "get_color_conflicts adj_matrix colors = Inr c"
    and a: "a = \<lparr>palette = curr_colors_list, start_gen = g, initial_colors = init,
                 final_colors = colors,
                 rounds = n, verdict = (if c = 0 then Converged else Exhausted)\<rparr>"
    unfolding attempt_def by (auto split: sum.splits)
  have i: "set init \<subseteq> set curr_colors_list \<and> length init = length adj_matrix"
    using rand_initialise_colors_subset [OF init] .
  have "set colors \<subseteq> set curr_colors_list \<and> length colors = length init"
    using round_loop_result [OF loop] i by simp
  moreover have "c = 0" using assms(2) a by (simp split: if_splits)
  ultimately show ?thesis using a fin i by simp
qed

lemma attempt_two_nodes:
  "attempt [[0, 1], [1, 0]] [''cyan'', ''magenta''] (4 / 10) 500 (sconst 0)
     = Inr (\<lparr>palette = [''cyan'', ''magenta''], start_gen = sconst 0,
             initial_colors = [''cyan'', ''cyan''],
             final_colors = [''magenta'', ''cyan''], rounds = 1, verdict = Converged\<rparr>, sconst 0)"
  by (simp add: attempt_def rand_initialise_colors_def random_randint_def list_get_def
      get_color_conflicts_def get_node_color_def round_loop.simps node_step_def
      get_node_neighbours_def random_random_def)

theorem converged_attempt_witness:
  "get_color_conflicts [[0, 1], [1, 0]] [''magenta'', ''cyan''] = Inr 0
   \<and> length [''magenta'', ''cyan''] = length [[0, 1], [1, 0 :: int]]
   \<and> set [''magenta'', ''cyan''] \<subseteq> set [''cyan'', ''magenta'']"
  using converged_attempt [OF attempt_two_nodes] by simp

section \<open>Degenerate graphs\<close>

lemma conflicts_row_edgeless:
  assumes "i < length A"
    and "\<forall>j \<in> set js. j < length (A ! i) \<and> A ! i ! j \<noteq> 1"
  shows "conflicts_row A colors i js c = Inr c"
  using assms by (induction js) (simp_all add: list_get_def)

lemma conflicts_rows_edgeless:
  assumes "\<forall>i \<in> set ns. i < length A \<and> (\<forall>j < i. j < length (A ! i) \<and> A ! i ! j \<noteq> 1)"
  shows "conflicts_rows A colors ns c = Inr c"
  using assms
proof (induction ns)
  case Nil
  show ?case by simp
next
  case (Cons i ns)
  have "conflicts_row A colors i [0..<i] c = Inr c"
    using Cons.prems by (intro conflicts_row_edgeless) auto
  then show ?case using Cons by simp
qed

lemma edgeless_no_conflicts:
  assumes "edgeless A"
  shows "get_color_conflicts A colors = Inr 0"
  unfolding get_color_conflicts_def
  using assms by (intro conflicts_rows_edgeless) (auto simp: edgeless_def list_all_iff)

lemma edgeless_attempt:
  assumes "edgeless adj_matrix" and "pal \<noteq> []"
  shows "\<exists>a g'. attempt adj_matrix pal p max_iterations g = Inr (a, g')
           \<and> verdict a = Converged \<and> rounds a = 0 \<and> final_colors a = initial_colors a"
proof -
  obtain init g1 where init: "rand_initialise_colors adj_matrix pal g = Inr (init, g1)"
    using rand_initialise_colors_total [OF assms(2)] by blast
  have zero: "\<And>cs. get_color_conflicts adj_matrix cs = Inr 0"
    using assms(1) by (rule edgeless_no_conflicts)
  have loop: "round_loop adj_matrix pal p max_iterations 0 init g1 = Inr (init, 0, g1)"
    by (subst round_loop.simps) (simp add: zero)
  show ?thesis
    by (simp add: attempt_def init zero loop)
qed

text \<open>
  C6, as the code has it: on a graph with at most one node, where no edge is possible and
  \<^verbatim>\<open>max_edges\<close> is zero, \<^verbatim>\<open>reverse_n_adjacencies\<close> never raises ZeroDivisionError (no pair
  is scanned, so the quotient is never computed), and with a count of zero or less it
  returns the matrix as it was; and on a graph with zero edges an attempt over a
  non-empty palette converges at once, with zero conflicts and no round.
\<close>

theorem degenerate_graphs:
  "(length adj_matrix \<le> 1 \<longrightarrow>
      reverse_n_adjacencies truediv adj_matrix num g \<noteq> Some (Inl ZeroDivisionError)
      \<and> (num \<le> 0 \<longrightarrow> reverse_n_adjacencies truediv adj_matrix num g
            = Some (Inr \<lparr>adj = adj_matrix, adjacencies_reversed = 0, toggled = [],
                          gen = g\<rparr>)))
   \<and> (edgeless adj_matrix \<and> curr_colors_list \<noteq> [] \<longrightarrow>
        (\<exists>a g'. attempt adj_matrix curr_colors_list p max_iterations g = Inr (a, g')
           \<and> verdict a = Converged \<and> rounds a = 0
           \<and> get_color_conflicts adj_matrix (final_colors a) = Inr 0))"
proof (intro conjI impI)
  assume "num \<le> 0"
  then show "reverse_n_adjacencies truediv adj_matrix num g
            = Some (Inr \<lparr>adj = adj_matrix, adjacencies_reversed = 0, toggled = [], gen = g\<rparr>)"
    by (simp add: reverse_n_adjacencies_def reverse_loop.simps)
next
  assume deg: "length adj_matrix \<le> 1"
  show "reverse_n_adjacencies truediv adj_matrix num g \<noteq> Some (Inl ZeroDivisionError)"
  proof (cases "num \<le> 0")
    case True
    then show ?thesis by (simp add: reverse_n_adjacencies_def reverse_loop.simps)
  next
    case False
    then show ?thesis using degenerate_none [OF deg, of num truediv g] by simp
  qed
next
  assume "edgeless adj_matrix \<and> curr_colors_list \<noteq> []"
  then show "\<exists>a g'. attempt adj_matrix curr_colors_list p max_iterations g = Inr (a, g')
           \<and> verdict a = Converged \<and> rounds a = 0
           \<and> get_color_conflicts adj_matrix (final_colors a) = Inr 0"
    using edgeless_attempt [of adj_matrix curr_colors_list p max_iterations g]
      edgeless_no_conflicts [of adj_matrix] by auto
qed

theorem degenerate_graphs_witness:
  "reverse_n_adjacencies (/) [[0]] 0 (sconst 0) \<noteq> Some (Inl ZeroDivisionError)
   \<and> reverse_n_adjacencies (/) [[0]] 0 (sconst 0)
       = Some (Inr \<lparr>adj = [[0]], adjacencies_reversed = 0, toggled = [], gen = sconst 0\<rparr>)
   \<and> (\<exists>a g'. attempt [[0]] [''cyan''] (4 / 10) 500 (sconst 0) = Inr (a, g')
           \<and> verdict a = Converged \<and> rounds a = 0
           \<and> get_color_conflicts [[0]] (final_colors a) = Inr 0)"
proof -
  have e: "edgeless [[0]] \<and> [''cyan''] \<noteq> []"
    by (simp add: edgeless_def)
  have d: "length [[0 :: int]] \<le> 1" and n: "(0 :: int) \<le> 0"
    by simp_all
  show ?thesis
    using degenerate_graphs [where truediv = "(/)" and adj_matrix = "[[0]]" and num = 0
        and g = "sconst 0" and curr_colors_list = "[''cyan'']" and p = "4 / 10"
        and max_iterations = 500] e d n
    by blast
qed

text \<open>
  The claim as written fails for a positive count: on the one-node graph no scan ever
  toggles an entry, the counter stays at zero, and the call does not return.
\<close>

theorem degenerate_no_return:
  "reverse_n_adjacencies (/) [[0]] 1 (sconst 0) = None"
  by (rule degenerate_none) simp_all

section \<open>The palette controller of part 1\<close>

lemma attempt_result_facts:
  assumes "attempt adj_matrix pal p max_iterations g = Inr (a, g')"
  shows "palette a = pal \<and> start_gen a = g \<and> drawn_afresh adj_matrix a
         \<and> rounds a \<le> max_iterations"
proof -
  from assms obtain init g1 colors n c where
    init: "rand_initialise_colors adj_matrix pal g = Inr (init, g1)"
    and loop: "round_loop adj_matrix pal p max_iterations 0 init g1 = Inr (colors, n, g')"
    and fin: "get_color_conflicts adj_matrix colors = Inr c"
    and a: "a = \<lparr>palette = pal, start_gen = g, initial_colors = init, final_colors = colors,
                 rounds = n, verdict = (if c = 0 then Converged else Exhausted)\<rparr>"
    unfolding attempt_def by (auto split: sum.splits)
  have i: "set init \<subseteq> set pal"
    using rand_initialise_colors_subset [OF init] by simp
  have "set colors \<subseteq> set pal \<and> n \<le> max 0 max_iterations"
    using round_loop_result [OF loop i] by simp
  then show ?thesis using a init i by (simp add: drawn_afresh_def)
qed

lemma last_converged_Cons:
  "last_converged (a # tr) =
     (case last_converged tr of
        None \<Rightarrow> (if verdict a = Converged then Some (final_colors a) else None)
      | Some c \<Rightarrow> Some c)"
  by (simp add: last_converged_def split: list.splits)

lemma attempts_loop_trace:
  assumes "attempts_loop adj_matrix all_colors p max_iterations ks st0 = Inr st"
  shows "\<exists>new. attempts st = attempts st0 @ new
           \<and> map palette new = map (\<lambda>k. take k all_colors) (take (length new) ks)
           \<and> (\<forall>a \<in> set (butlast new). verdict a = Converged)
           \<and> (length new = length ks \<or> (new \<noteq> [] \<and> verdict (last new) = Exhausted))
           \<and> best_achieved_coloring st =
                (case last_converged new of None \<Rightarrow> best_achieved_coloring st0 | Some c \<Rightarrow> Some c)
           \<and> (\<forall>a \<in> set new. drawn_afresh adj_matrix a)"
  using assms
proof (induction ks arbitrary: st0)
  case Nil
  then show ?case by (simp add: last_converged_def)
next
  case (Cons k ks)
  from Cons.prems obtain a g' where
    att: "attempt adj_matrix (take k all_colors) p max_iterations (run_gen st0) = Inr (a, g')"
    by (auto split: sum.splits)
  note facts = attempt_result_facts [OF att]
  show ?case
  proof (cases "verdict a = Converged")
    case True
    let ?st1 = "st0\<lparr>best_achieved_coloring := Some (final_colors a),
                     attempts := attempts st0 @ [a], run_gen := g'\<rparr>"
    have rest: "attempts_loop adj_matrix all_colors p max_iterations ks ?st1 = Inr st"
      using Cons.prems att True by simp
    from Cons.IH [OF rest] obtain new where
      n1: "attempts st = attempts ?st1 @ new"
      and n2: "map palette new = map (\<lambda>k. take k all_colors) (take (length new) ks)"
      and n3: "\<forall>a \<in> set (butlast new). verdict a = Converged"
      and n4: "length new = length ks \<or> (new \<noteq> [] \<and> verdict (last new) = Exhausted)"
      and n5: "best_achieved_coloring st =
                (case last_converged new of None \<Rightarrow> best_achieved_coloring ?st1 | Some c \<Rightarrow> Some c)"
      and n6: "\<forall>a \<in> set new. drawn_afresh adj_matrix a"
      by blast
    have "attempts st = attempts st0 @ (a # new)" using n1 by simp
    moreover have "map palette (a # new)
                     = map (\<lambda>k. take k all_colors) (take (length (a # new)) (k # ks))"
      using n2 facts by simp
    moreover have "\<forall>b \<in> set (butlast (a # new)). verdict b = Converged"
      using n3 True by simp
    moreover have "length (a # new) = length (k # ks)
                     \<or> (a # new \<noteq> [] \<and> verdict (last (a # new)) = Exhausted)"
      using n4 by auto
    moreover have "best_achieved_coloring st =
                (case last_converged (a # new) of
                   None \<Rightarrow> best_achieved_coloring st0 | Some c \<Rightarrow> Some c)"
      using n5 True by (simp add: last_converged_Cons split: option.splits)
    moreover have "\<forall>b \<in> set (a # new). drawn_afresh adj_matrix b"
      using n6 facts by auto
    ultimately show ?thesis by blast
  next
    case False
    then have ex: "verdict a = Exhausted" by (cases "verdict a") simp_all
    have st: "st = st0\<lparr>attempts := attempts st0 @ [a], run_gen := g'\<rparr>"
      using Cons.prems att False by simp
    have "attempts st = attempts st0 @ [a]" using st by simp
    moreover have "map palette [a] = map (\<lambda>k. take k all_colors) (take (length [a]) (k # ks))"
      using facts by simp
    moreover have "best_achieved_coloring st =
                (case last_converged [a] of
                   None \<Rightarrow> best_achieved_coloring st0 | Some c \<Rightarrow> Some c)"
      using st ex by (simp add: last_converged_def)
    moreover have "\<forall>b \<in> set [a]. drawn_afresh adj_matrix b"
      using facts by auto
    ultimately show ?thesis using ex
      by (intro exI [of _ "[a]"]) simp
  qed
qed

lemma length_py_range_down: "length (py_range_down hi lo) = hi - lo"
  by (simp add: py_range_down_def del: upt_Suc)

lemma py_range_down_nth:
  assumes "i < hi - lo"
  shows "py_range_down hi lo ! i = hi - i"
proof -
  have "rev [lo + 1..<hi + 1] ! i = [lo + 1..<hi + 1] ! (length [lo + 1..<hi + 1] - Suc i)"
    using assms by (intro rev_nth) (simp del: upt_Suc)
  also have "\<dots> = lo + 1 + (hi - lo - Suc i)"
    using assms by (simp del: upt_Suc)
  also have "\<dots> = hi - i"
    using assms by simp
  finally show ?thesis by (simp add: py_range_down_def)
qed

text \<open>
  A run used below: the complete graph on four nodes, a palette of four colours, two
  rounds per palette size and every draw zero. The attempt with four colours converges in
  one round, the attempt with three colours is exhausted.
\<close>

lemma run_on_k4:
  "part_1_loop [[0, 1, 1, 1], [1, 0, 1, 1], [1, 1, 0, 1], [1, 1, 1, 0]]
      [''cyan'', ''magenta'', ''red'', ''green''] (4 / 10) 2 (sconst 0)
   = Inr \<lparr>best_achieved_coloring = Some [''magenta'', ''red'', ''green'', ''cyan''],
          attempts =
            [\<lparr>palette = [''cyan'', ''magenta'', ''red'', ''green''], start_gen = sconst 0,
              initial_colors = [''cyan'', ''cyan'', ''cyan'', ''cyan''],
              final_colors = [''magenta'', ''red'', ''green'', ''cyan''],
              rounds = 1, verdict = Converged\<rparr>,
             \<lparr>palette = [''cyan'', ''magenta'', ''red''], start_gen = sconst 0,
              initial_colors = [''cyan'', ''cyan'', ''cyan'', ''cyan''],
              final_colors = [''magenta'', ''red'', ''cyan'', ''cyan''],
              rounds = 2, verdict = Exhausted\<rparr>],
          run_gen = sconst 0\<rparr>"
  by (simp add: part_1_loop_def py_range_down_def attempt_def rand_initialise_colors_def
      random_randint_def list_get_def get_color_conflicts_def get_node_color_def
      round_loop.simps node_step_def get_node_neighbours_def random_random_def)

text \<open>
  C3, as the code has it: in part 1 the attempted palettes are the prefixes of the full
  palette of sizes \<open>n, n - 1, ...\<close>, starting at the full size \<open>n\<close> and one smaller after
  each converged attempt; every attempt but the last one converged; the run stops at the
  first exhausted attempt or, when none is exhausted, after the attempt with three
  colours, the last size of \<^verbatim>\<open>range(len(all_available_colors), 2, -1)\<close>; and
  \<^verbatim>\<open>best_achieved_coloring\<close> is the final colouring of the last converged attempt, which
  the final report uses when there is one.
\<close>

theorem monotone_shrink:
  assumes "part_1_loop adj_matrix all_colors p max_iterations g = Inr st"
  shows "length (attempts st) \<le> length all_colors - 2
       \<and> (\<forall>i < length (attempts st).
            palette (attempts st ! i) = take (length all_colors - i) all_colors
            \<and> length (palette (attempts st ! i)) = length all_colors - i)
       \<and> (\<forall>a \<in> set (butlast (attempts st)). verdict a = Converged)
       \<and> (length (attempts st) = length all_colors - 2
            \<or> (attempts st \<noteq> [] \<and> verdict (last (attempts st)) = Exhausted))
       \<and> best_achieved_coloring st = last_converged (attempts st)
       \<and> (\<forall>best. last_converged (attempts st) = Some best \<longrightarrow>
            part_1_main adj_matrix all_colors p max_iterations g = Inr (st, best))"
proof -
  let ?ks = "py_range_down (length all_colors) 2"
  let ?st0 = "\<lparr>best_achieved_coloring = None, attempts = [], run_gen = g\<rparr>"
  from attempts_loop_trace [OF assms [unfolded part_1_loop_def]] obtain new where
    n0: "attempts st = attempts ?st0 @ new"
    and n2: "map palette new = map (\<lambda>k. take k all_colors) (take (length new) ?ks)"
    and n3: "\<forall>a \<in> set (butlast new). verdict a = Converged"
    and n4: "length new = length ?ks \<or> (new \<noteq> [] \<and> verdict (last new) = Exhausted)"
    and n5': "best_achieved_coloring st =
                (case last_converged new of
                   None \<Rightarrow> best_achieved_coloring ?st0 | Some c \<Rightarrow> Some c)"
    by blast
  have n1: "attempts st = new" using n0 by simp
  have n5: "best_achieved_coloring st =
                (case last_converged new of None \<Rightarrow> None | Some c \<Rightarrow> Some c)"
    using n5' by (simp split: option.splits)
  have len: "length new \<le> length all_colors - 2"
    using arg_cong [OF n2, of length] by (simp add: length_py_range_down)
  have pal: "palette (new ! i) = take (length all_colors - i) all_colors
            \<and> length (palette (new ! i)) = length all_colors - i" if "i < length new" for i
  proof -
    have "palette (new ! i) = map palette new ! i" using that by simp
    also have "\<dots> = take (?ks ! i) all_colors"
      unfolding n2 using that len by (simp add: length_py_range_down)
    also have "?ks ! i = length all_colors - i"
      using that len by (intro py_range_down_nth) simp
    finally show ?thesis by simp
  qed
  have best: "best_achieved_coloring st = last_converged new"
    using n5 by (simp split: option.splits)
  show ?thesis
    using n1 len pal n3 n4 best assms
    by (auto simp: part_1_main_def length_py_range_down split: option.splits)
qed

theorem monotone_shrink_witness:
  "part_1_main [[0, 1, 1, 1], [1, 0, 1, 1], [1, 1, 0, 1], [1, 1, 1, 0]]
      [''cyan'', ''magenta'', ''red'', ''green''] (4 / 10) 2 (sconst 0)
   = Inr (\<lparr>best_achieved_coloring = Some [''magenta'', ''red'', ''green'', ''cyan''],
           attempts =
            [\<lparr>palette = [''cyan'', ''magenta'', ''red'', ''green''], start_gen = sconst 0,
              initial_colors = [''cyan'', ''cyan'', ''cyan'', ''cyan''],
              final_colors = [''magenta'', ''red'', ''green'', ''cyan''],
              rounds = 1, verdict = Converged\<rparr>,
             \<lparr>palette = [''cyan'', ''magenta'', ''red''], start_gen = sconst 0,
              initial_colors = [''cyan'', ''cyan'', ''cyan'', ''cyan''],
              final_colors = [''magenta'', ''red'', ''cyan'', ''cyan''],
              rounds = 2, verdict = Exhausted\<rparr>],
           run_gen = sconst 0\<rparr>, [''magenta'', ''red'', ''green'', ''cyan''])"
  using monotone_shrink [OF run_on_k4] by (simp add: last_converged_def)

text \<open>
  The claim as written fails where it says the run stops only at an exhausted attempt:
  on the graph with one node and the palette of the script, all ten attempts, of sizes
  twelve down to three, converge, and the run ends with no exhausted attempt.
\<close>

theorem run_ends_without_exhausted_attempt:
  "(case part_1_loop [[0]] all_available_colors prob_of_node_changing_color
          max_iterations_per_color_list (sconst 0) of
      Inl e \<Rightarrow> False
    | Inr st \<Rightarrow>
        map (\<lambda>a. (length (palette a), verdict a)) (attempts st)
          = [(12, Converged), (11, Converged), (10, Converged), (9, Converged), (8, Converged),
             (7, Converged), (6, Converged), (5, Converged), (4, Converged), (3, Converged)])"
  by (simp add: part_1_loop_def py_range_down_def attempt_def rand_initialise_colors_def
      random_randint_def list_get_def get_color_conflicts_def get_node_color_def
      round_loop.simps all_available_colors_def)

section \<open>Colours across a change of palette size\<close>

subsection \<open>The adaptive loop keeps the number of nodes and its list of attempts\<close>

lemma rand_initialise_colors_length_only:
  assumes "length A = length B"
  shows "rand_initialise_colors A pal g = rand_initialise_colors B pal g"
  using assms by (simp add: rand_initialise_colors_def)

lemma history_update_frame:
  assumes "history_update colors st = Inr st'"
  shows "graph st' = graph st \<and> attempts_made st' = attempts_made st
         \<and> adaptive_gen st' = adaptive_gen st \<and> iteration st' = iteration st"
  using assms unfolding history_update_def Let_def
  by (auto split: sum.splits option.splits if_splits prod.splits)

lemma reverse_n_adjacencies_length:
  assumes "reverse_n_adjacencies truediv A num g = Some (Inr s)"
  shows "length (adj s) = length A"
proof -
  have "toggles_account A \<lparr>adj = A, adjacencies_reversed = 0, toggled = [], gen = g\<rparr>"
    by (simp add: toggles_account_def)
  then have "toggles_account A s"
    using assms reverse_loop_account unfolding reverse_n_adjacencies_def Let_def by blast
  then show ?thesis by (simp add: toggles_account_def length_foldl_flip_entry)
qed

lemma perturb_step_frame:
  assumes "perturb_step cfg st = Some (Inr st')"
  shows "length (graph st') = length (graph st) \<and> attempts_made st' = attempts_made st"
proof (cases "cfg_perturb_freq_in_iters cfg \<noteq> 0
              \<and> iteration st mod cfg_perturb_freq_in_iters cfg = 0")
  case True
  then obtain s where
    s: "reverse_n_adjacencies (cfg_division cfg) (graph st) 50 (adaptive_gen st) = Some (Inr s)"
    and st': "st' = st\<lparr>graph := adj s, adaptive_gen := gen s,
                        iterations_where_graph_perturbed :=
                          iterations_where_graph_perturbed st @ [iteration st]\<rparr>"
    using assms unfolding perturb_step_def by (auto split: option.splits sum.splits)
  show ?thesis using reverse_n_adjacencies_length [OF s] st' by simp
next
  case False
  then show ?thesis using assms unfolding perturb_step_def by (auto split: if_splits)
qed


lemma adaptive_round_frame:
  assumes "adaptive_round cfg pal st colors = Some (Inr (st', colors'))"
    and "set colors \<subseteq> set pal"
  shows "length (graph st') = length (graph st) \<and> attempts_made st' = attempts_made st
         \<and> set colors' \<subseteq> set pal"
proof -
  from assms(1) obtain g' st1 where
    pass: "nodes_pass (graph st) pal (cfg_prob_change cfg) [0..<length (graph st)] colors
             (adaptive_gen st) = Inr (colors', g')"
    and hist: "history_update colors' (st\<lparr>iteration := iteration st + 1, adaptive_gen := g'\<rparr>)
                 = Inr st1"
    and pert: "perturb_step cfg st1 = Some (Inr st')"
    unfolding adaptive_round_def by (auto split: sum.splits option.splits)
  have "set colors' \<subseteq> set pal"
    using nodes_pass_subset [OF pass assms(2)] by simp
  moreover have "graph st1 = graph st \<and> attempts_made st1 = attempts_made st"
    using history_update_frame [OF hist] by simp
  ultimately show ?thesis using perturb_step_frame [OF pert] by simp
qed

lemma adaptive_rounds_frame:
  assumes "adaptive_rounds cfg pal n st colors = Some (Inr (st', colors', n'))"
    and "set colors \<subseteq> set pal"
  shows "length (graph st') = length (graph st) \<and> attempts_made st' = attempts_made st
         \<and> set colors' \<subseteq> set pal"
  using assms
proof (induction cfg pal n st colors rule: adaptive_rounds.induct)
  case (1 cfg pal n st colors)
  from "1.prems"(1) obtain c where c: "get_color_conflicts (graph st) colors = Inr c"
    by (subst (asm) adaptive_rounds.simps) (auto split: sum.splits)
  show ?case
  proof (cases "c \<noteq> 0 \<and> n < cfg_max_per_color_list cfg")
    case True
    from "1.prems"(1) True c obtain st1 c1 where
      round: "adaptive_round cfg pal st colors = Some (Inr (st1, c1))"
      and rest: "adaptive_rounds cfg pal (n + 1) st1 c1 = Some (Inr (st', colors', n'))"
      by (subst (asm) adaptive_rounds.simps) (auto split: sum.splits option.splits)
    note f1 = adaptive_round_frame [OF round "1.prems"(2)]
    have "length (graph st') = length (graph st1) \<and> attempts_made st' = attempts_made st1
         \<and> set colors' \<subseteq> set pal"
      using "1.IH" [OF c True round _ _ rest] f1
      by (metis prod.inject old.prod.exhaust)
    then show ?thesis using f1 by simp
  next
    case False
    then have "st' = st \<and> colors' = colors"
      using "1.prems"(1) c by (subst (asm) adaptive_rounds.simps) auto
    then show ?thesis using "1.prems"(2) by simp
  qed
qed


lemma adaptive_attempt_fresh:
  assumes "adaptive_attempt cfg st = Some (Inr st')" and "attempts_fresh A st"
  shows "attempts_fresh A st'"
proof -
  let ?pal = "py_prefix (cfg_colors cfg) (num_colors_to_include st)"
  from assms(1) obtain init g1 st1 colors n c where
    init: "rand_initialise_colors (graph st) ?pal (adaptive_gen st) = Inr (init, g1)"
    and rounds: "adaptive_rounds cfg ?pal 0 (st\<lparr>adaptive_gen := g1\<rparr>) init
                   = Some (Inr (st1, colors, n))"
    and fin: "get_color_conflicts (graph st1) colors = Inr c"
    and st': "attempts_made st' = attempts_made st1 @
                [\<lparr>palette = ?pal, start_gen = adaptive_gen st, initial_colors = init,
                  final_colors = colors, rounds = n,
                  verdict = (if c = 0 then Converged else Exhausted)\<rparr>]"
    and graph': "graph st' = graph st1"
    unfolding adaptive_attempt_def Let_def
    by (auto split: sum.splits option.splits)
  have i: "set init \<subseteq> set ?pal"
    using rand_initialise_colors_subset [OF init] by simp
  have frame: "length (graph st1) = length (graph st) \<and> attempts_made st1 = attempts_made st
               \<and> set colors \<subseteq> set ?pal"
    using adaptive_rounds_frame [OF rounds i] by simp
  have len: "length (graph st) = length A"
    using assms(2) by (simp add: attempts_fresh_def)
  have "rand_initialise_colors A ?pal (adaptive_gen st) = Inr (init, g1)"
    using init rand_initialise_colors_length_only [OF len, of ?pal "adaptive_gen st"] by simp
  then have "drawn_afresh A \<lparr>palette = ?pal, start_gen = adaptive_gen st, initial_colors = init,
                  final_colors = colors, rounds = n,
                  verdict = (if c = 0 then Converged else Exhausted)\<rparr>"
    using i frame by (simp add: drawn_afresh_def)
  then show ?thesis
    using assms(2) st' graph' frame len by (auto simp: attempts_fresh_def)
qed

lemma adaptive_loop_fresh:
  assumes "adaptive_loop cfg st = Some r"
  shows "attempts_fresh A st \<longrightarrow> (\<forall>st'. r = Inr st' \<longrightarrow> attempts_fresh A st')"
proof (rule adaptive_loop.raw_induct
    [where P = "\<lambda>cfg st r. attempts_fresh A st \<longrightarrow> (\<forall>st'. r = Inr st' \<longrightarrow> attempts_fresh A st')"])
  show "adaptive_loop cfg st = Some r" by (rule assms)
next
  fix f :: "adaptive_config \<Rightarrow> adaptive_state \<Rightarrow> (error + adaptive_state) option"
    and cfg st r
  assume ih: "\<And>cfg st r. f cfg st = Some r
                \<Longrightarrow> attempts_fresh A st \<longrightarrow> (\<forall>st'. r = Inr st' \<longrightarrow> attempts_fresh A st')"
    and body: "(if iteration st < cfg_max_total_iterations cfg then
        (case adaptive_attempt cfg st of
           None \<Rightarrow> None
         | Some (Inl e) \<Rightarrow> Some (Inl e)
         | Some (Inr st') \<Rightarrow> f cfg st')
      else Some (Inr st)) = Some r"
  show "attempts_fresh A st \<longrightarrow> (\<forall>st'. r = Inr st' \<longrightarrow> attempts_fresh A st')"
  proof (intro impI allI)
    fix st' assume fresh: "attempts_fresh A st" and r: "r = Inr st'"
    show "attempts_fresh A st'"
    proof (cases "iteration st < cfg_max_total_iterations cfg")
      case True
      then obtain st1 where
        att: "adaptive_attempt cfg st = Some (Inr st1)" and again: "f cfg st1 = Some r"
        using body r by (auto split: option.splits sum.splits)
      have "attempts_fresh A st1"
        using att fresh by (rule adaptive_attempt_fresh)
      then show ?thesis using ih [OF again] r by blast
    next
      case False
      then show ?thesis using body r fresh by auto
    qed
  qed
qed

lemma part_2_loop_fresh:
  assumes "part_2_loop cfg adj_matrix g = Some (Inr st)"
  shows "\<forall>a \<in> set (attempts_made st). drawn_afresh adj_matrix a"
proof -
  have "attempts_fresh adj_matrix (part_2_start cfg adj_matrix g)"
    by (simp add: attempts_fresh_def part_2_start_def)
  then have "attempts_fresh adj_matrix st"
    using assms adaptive_loop_fresh [of cfg "part_2_start cfg adj_matrix g" "Inr st" adj_matrix]
    unfolding part_2_loop_def by blast
  then show ?thesis by (simp add: attempts_fresh_def)
qed

text \<open>
  A run of part 2 used below: two adjacent nodes, three colours, a budget of two rounds
  in all and every draw zero. The attempt with three colours converges in one round, and
  so does the attempt with two colours, which ends the run.
\<close>

lemma part_2_run:
  "part_2_loop
     \<lparr>cfg_colors = [''cyan'', ''magenta'', ''red''], cfg_prob_change = 4 / 10,
      cfg_max_total_iterations = 2, cfg_max_per_color_list = 500,
      cfg_perturb_freq_in_iters = 2000, cfg_division = (/)\<rparr>
     [[0, 1], [1, 0]] (sconst 0)
   = Some (Inr
       \<lparr>graph = [[0, 1], [1, 0]],
        iteration = 2,
        num_colors_to_include = 1,
        current_best_valid_coloring = BestOld [''magenta'', ''cyan''],
        lowest_conflicts_achieved_for_current_graph = Some 0,
        best_num_colors_achieved_over_iterations = [Some 2],
        iterations_where_solution_available_for_graph = [Some 1],
        lowest_conflicts_over_iterations = [0, 0],
        iterations_where_graph_perturbed = [],
        attempts_made =
          [\<lparr>palette = [''cyan'', ''magenta'', ''red''], start_gen = sconst 0,
            initial_colors = [''cyan'', ''cyan''], final_colors = [''magenta'', ''cyan''],
            rounds = 1, verdict = Converged\<rparr>,
           \<lparr>palette = [''cyan'', ''magenta''], start_gen = sconst 0,
            initial_colors = [''cyan'', ''cyan''], final_colors = [''magenta'', ''cyan''],
            rounds = 1, verdict = Converged\<rparr>],
        adaptive_gen = sconst 0\<rparr>)"
  by (simp add: part_2_loop_def part_2_start_def adaptive_loop.simps adaptive_attempt_def
      py_prefix_def
      rand_initialise_colors_def random_randint_def list_get_def get_color_conflicts_def
      get_node_color_def adaptive_rounds.simps adaptive_round_def node_step_def
      get_node_neighbours_def random_random_def history_update_def best_value_def
      num_distinct_def perturb_step_def)

subsection \<open>Every attempt starts from a fresh draw\<close>

text \<open>
  C4, as the code has it: in part 1 and in part 2 alike, no colour is carried over from
  one attempt to the next. The colouring an attempt starts with is the one
  \<^verbatim>\<open>rand_initialise_colors\<close> returns for the graph, the active palette of the attempt and
  the random source as the attempt found it, so every node is given a new colour drawn
  from the active palette whatever it held before; and at the start and at the end of an
  attempt every node holds a colour of the active palette.
\<close>

theorem fresh_colouring_each_attempt:
  "(part_1_loop adj_matrix all_colors p max_iterations g = Inr st \<longrightarrow>
      (\<forall>a \<in> set (attempts st). drawn_afresh adj_matrix a))
   \<and> (part_2_loop cfg adj_matrix g = Some (Inr st') \<longrightarrow>
      (\<forall>a \<in> set (attempts_made st'). drawn_afresh adj_matrix a))"
proof -
  have "\<forall>a \<in> set (attempts st). drawn_afresh adj_matrix a"
    if run: "part_1_loop adj_matrix all_colors p max_iterations g = Inr st"
    using attempts_loop_trace [OF run [unfolded part_1_loop_def]] by auto
  moreover have "\<forall>a \<in> set (attempts_made st'). drawn_afresh adj_matrix a"
    if run: "part_2_loop cfg adj_matrix g = Some (Inr st')"
    using run by (rule part_2_loop_fresh)
  ultimately show ?thesis by blast
qed

text \<open>
  In the run of part 1 on the complete graph on four nodes, the attempt with three
  colours starts with all four nodes cyan, the draw of \<^verbatim>\<open>rand_initialise_colors\<close> from
  the source it found; in the run of part 2 the attempt with two colours starts with both
  nodes cyan, though the attempt before left node \<open>0\<close> magenta.
\<close>

theorem fresh_colouring_each_attempt_witness:
  "map_sum id fst
     (rand_initialise_colors [[0, 1, 1, 1], [1, 0, 1, 1], [1, 1, 0, 1], [1, 1, 1, 0]]
        [''cyan'', ''magenta'', ''red''] (sconst 0))
     = Inr [''cyan'', ''cyan'', ''cyan'', ''cyan'']
   \<and> map_sum id fst
       (rand_initialise_colors [[0, 1], [1, 0]] [''cyan'', ''magenta''] (sconst 0))
     = Inr [''cyan'', ''cyan'']"
proof -
  have "drawn_afresh [[0, 1, 1, 1], [1, 0, 1, 1], [1, 1, 0, 1], [1, 1, 1, 0]]
          \<lparr>palette = [''cyan'', ''magenta'', ''red''], start_gen = sconst 0,
            initial_colors = [''cyan'', ''cyan'', ''cyan'', ''cyan''],
            final_colors = [''magenta'', ''red'', ''cyan'', ''cyan''],
            rounds = 2, verdict = Exhausted\<rparr>"
    by (rule fresh_colouring_each_attempt [THEN conjunct1, rule_format, OF run_on_k4]) simp
  moreover have "drawn_afresh [[0, 1], [1, 0]]
          \<lparr>palette = [''cyan'', ''magenta''], start_gen = sconst 0,
            initial_colors = [''cyan'', ''cyan''], final_colors = [''magenta'', ''cyan''],
            rounds = 1, verdict = Converged\<rparr>"
    by (rule fresh_colouring_each_attempt [THEN conjunct2, rule_format, OF part_2_run]) simp
  ultimately show ?thesis by (simp add: drawn_afresh_def)
qed

text \<open>
  The claim as written fails: on the graph with one node, with every raw draw eleven, the
  first attempt of part 1 leaves the node navy without a single round; the palette of the
  second attempt has no navy, and the second attempt starts with the node cyan, again
  without a round: the colour was replaced by the fresh draw, not by the node's decision.
  The first two passes of the outer loop of part 2 do the same.
\<close>

theorem colour_redrawn_after_shrink:
  "(case part_1_loop [[0]] all_available_colors prob_of_node_changing_color
          max_iterations_per_color_list (sconst 11) of
      Inl e \<Rightarrow> False
    | Inr st \<Rightarrow>
        final_colors (attempts st ! 0) = [''navy''] \<and> rounds (attempts st ! 0) = 0
        \<and> ''navy'' \<notin> set (palette (attempts st ! 1))
        \<and> initial_colors (attempts st ! 1) = [''cyan''] \<and> rounds (attempts st ! 1) = 0)
   \<and> (case adaptive_attempt part_2_config (part_2_start part_2_config [[0]] (sconst 11)) of
        Some (Inr st1) \<Rightarrow>
          (case adaptive_attempt part_2_config st1 of
             Some (Inr st2) \<Rightarrow>
               final_colors (attempts_made st2 ! 0) = [''navy'']
               \<and> rounds (attempts_made st2 ! 0) = 0
               \<and> ''navy'' \<notin> set (palette (attempts_made st2 ! 1))
               \<and> initial_colors (attempts_made st2 ! 1) = [''cyan'']
               \<and> rounds (attempts_made st2 ! 1) = 0
           | _ \<Rightarrow> False)
      | _ \<Rightarrow> False)"
proof -
  have "case part_1_loop [[0]] all_available_colors prob_of_node_changing_color
          max_iterations_per_color_list (sconst 11) of
      Inl e \<Rightarrow> False
    | Inr st \<Rightarrow>
        final_colors (attempts st ! 0) = [''navy''] \<and> rounds (attempts st ! 0) = 0
        \<and> ''navy'' \<notin> set (palette (attempts st ! 1))
        \<and> initial_colors (attempts st ! 1) = [''cyan''] \<and> rounds (attempts st ! 1) = 0"
    by (simp add: part_1_loop_def py_range_down_def attempt_def rand_initialise_colors_def
        random_randint_def list_get_def get_color_conflicts_def get_node_color_def
        round_loop.simps all_available_colors_def)
  moreover have
    "case adaptive_attempt part_2_config (part_2_start part_2_config [[0]] (sconst 11)) of
        Some (Inr st1) \<Rightarrow>
          (case adaptive_attempt part_2_config st1 of
             Some (Inr st2) \<Rightarrow>
               final_colors (attempts_made st2 ! 0) = [''navy'']
               \<and> rounds (attempts_made st2 ! 0) = 0
               \<and> ''navy'' \<notin> set (palette (attempts_made st2 ! 1))
               \<and> initial_colors (attempts_made st2 ! 1) = [''cyan'']
               \<and> rounds (attempts_made st2 ! 1) = 0
           | _ \<Rightarrow> False)
      | _ \<Rightarrow> False"
    by (simp add: part_2_config_def part_2_start_def adaptive_attempt_def py_prefix_def
        rand_initialise_colors_def random_randint_def list_get_def get_color_conflicts_def
        get_node_color_def adaptive_rounds.simps all_available_colors_def)
  ultimately show ?thesis by blast
qed

section \<open>The generated graph\<close>

lemma mirror_row_eq:
  assumes "x < length M" and "\<forall>y \<in> set ys. y < length M \<and> x < length (M ! y) \<and> y \<noteq> x"
  shows "mirror_row x ys M = Inr (M[x := M ! x @ map (\<lambda>y. M ! y ! x) ys])"
  using assms
proof (induction ys arbitrary: M)
  case Nil
  then show ?case by simp
next
  case (Cons y ys)
  let ?M1 = "M[x := M ! x @ [M ! y ! x]]"
  have y: "y < length M" "x < length (M ! y)" "y \<noteq> x" using Cons.prems by auto
  have step: "mirror_row x (y # ys) M = mirror_row x ys ?M1"
    using Cons.prems(1) y by (simp add: list_get_def)
  have pre: "\<forall>y' \<in> set ys. y' < length ?M1 \<and> x < length (?M1 ! y') \<and> y' \<noteq> x"
    using Cons.prems by auto
  have "mirror_row x ys ?M1 = Inr (?M1[x := ?M1 ! x @ map (\<lambda>y. ?M1 ! y ! x) ys])"
    using Cons.prems(1) pre by (intro Cons.IH) simp_all
  moreover have "map (\<lambda>y. ?M1 ! y ! x) ys = map (\<lambda>y. M ! y ! x) ys"
    using Cons.prems by (intro map_cong) auto
  ultimately show ?case
    using step Cons.prems(1) by simp
qed

lemma mirror_matrix_eq:
  assumes "length M = n" and "sorted_wrt (<) xs" and "\<forall>x \<in> set xs. x < n"
    and "\<forall>y < n. y < length (M ! y)"
  shows "mirror_matrix (int n) xs M =
           Inr (map (\<lambda>x. if x \<in> set xs then M ! x @ map (\<lambda>y. M ! y ! x) [x + 1..<n] else M ! x)
                  [0..<n])"
  using assms
proof (induction xs arbitrary: M)
  case Nil
  from Nil.prems(1) [symmetric] show ?case by (simp add: map_nth)
next
  case (Cons x xs)
  let ?M1 = "M[x := M ! x @ map (\<lambda>y. M ! y ! x) [x + 1..<n]]"
  have x: "x < n" using Cons.prems by simp
  have row: "mirror_row x [x + 1..<n] M = Inr ?M1"
    using Cons.prems x by (intro mirror_row_eq) auto
  have step: "mirror_matrix (int n) (x # xs) M = mirror_matrix (int n) xs ?M1"
    using Cons.prems(1) x row by (simp add: list_get_def)
  have gt: "\<forall>x' \<in> set xs. x < x'" using Cons.prems(2) by simp
  have "mirror_matrix (int n) xs ?M1 =
           Inr (map (\<lambda>x'. if x' \<in> set xs then ?M1 ! x' @ map (\<lambda>y. ?M1 ! y ! x') [x' + 1..<n]
                           else ?M1 ! x') [0..<n])"
  proof (rule Cons.IH)
    show "length ?M1 = n" using Cons.prems(1) by simp
    show "sorted_wrt (<) xs" using Cons.prems(2) by simp
    show "\<forall>x \<in> set xs. x < n" using Cons.prems(3) by simp
    show "\<forall>y < n. y < length (?M1 ! y)"
    proof (intro allI impI)
      fix y assume y: "y < n"
      show "y < length (?M1 ! y)"
      proof (cases "y = x")
        case True
        have "x < length (M ! x)" using Cons.prems(4) x by simp
        then show ?thesis using True Cons.prems(1) x by simp
      next
        case False
        then show ?thesis using Cons.prems(4) y by simp
      qed
    qed
  qed
  moreover have "map (\<lambda>x'. if x' \<in> set xs then ?M1 ! x' @ map (\<lambda>y. ?M1 ! y ! x') [x' + 1..<n]
                           else ?M1 ! x') [0..<n]
      = map (\<lambda>x'. if x' \<in> set (x # xs) then M ! x' @ map (\<lambda>y. M ! y ! x') [x' + 1..<n]
                           else M ! x') [0..<n]"
  proof (rule map_cong [OF refl])
    fix x' assume "x' \<in> set [0..<n]"
    then have x': "x' < n" by simp
    show "(if x' \<in> set xs then ?M1 ! x' @ map (\<lambda>y. ?M1 ! y ! x') [x' + 1..<n] else ?M1 ! x')
        = (if x' \<in> set (x # xs) then M ! x' @ map (\<lambda>y. M ! y ! x') [x' + 1..<n] else M ! x')"
    proof (cases "x' \<in> set xs")
      case True
      then have lt: "x < x'" using gt by simp
      have "map (\<lambda>y. ?M1 ! y ! x') [x' + 1..<n] = map (\<lambda>y. M ! y ! x') [x' + 1..<n]"
        using lt by (intro map_cong) auto
      then show ?thesis using True lt by simp
    next
      case False
      then show ?thesis using gt x' Cons.prems(1) by (auto simp: nth_list_update)
    qed
  qed
  ultimately show ?case using step by simp
qed


lemma half_row_shape:
  "\<exists>r. fst (half_row p x ys row g) = row @ r \<and> length r = length ys
       \<and> (\<forall>i < length ys. ys ! i = x \<longrightarrow> r ! i = 0)"
proof (induction ys arbitrary: row g)
  case Nil
  show ?case by simp
next
  case (Cons y ys)
  define v :: int where "v = (if x = y then 0 else if fst (random_random g) < p then 1 else 0)"
  define g1 where "g1 = (if x = y then g else snd (random_random g))"
  have step: "half_row p x (y # ys) row g = half_row p x ys (row @ [v]) g1"
    by (simp add: v_def g1_def case_prod_beta)
  obtain r where r: "fst (half_row p x ys (row @ [v]) g1) = (row @ [v]) @ r"
      "length r = length ys" "\<forall>i < length ys. ys ! i = x \<longrightarrow> r ! i = 0"
    using Cons [of "row @ [v]" g1] by blast
  have "\<forall>i < length (y # ys). (y # ys) ! i = x \<longrightarrow> (v # r) ! i = 0"
  proof (intro allI impI)
    fix i assume "i < length (y # ys)" and "(y # ys) ! i = x"
    then show "(v # r) ! i = 0"
      using r(3) by (cases i) (auto simp: v_def)
  qed
  then show ?case
    using step r(1,2) by (intro exI [of _ "v # r"]) simp
qed

lemma half_matrix_shape:
  "\<exists>R. fst (half_matrix p xs M g) = M @ R \<and> length R = length xs
       \<and> (\<forall>i < length xs. length (R ! i) = xs ! i + 1 \<and> R ! i ! (xs ! i) = 0)"
proof (induction xs arbitrary: M g)
  case Nil
  show ?case by simp
next
  case (Cons x xs)
  obtain r where r: "fst (half_row p x [0..<x + 1] [] g) = r" "length r = x + 1" "r ! x = 0"
    using half_row_shape [of p x "[0..<x + 1]" "[]" g] by (auto simp del: upt_Suc)
  define g1 where "g1 = snd (half_row p x [0..<x + 1] [] g)"
  have step: "half_matrix p (x # xs) M g = half_matrix p xs (M @ [r]) g1"
    using r(1) by (simp add: g1_def case_prod_beta del: upt_Suc)
  obtain R where R: "fst (half_matrix p xs (M @ [r]) g1) = (M @ [r]) @ R"
      "length R = length xs"
      "\<forall>i < length xs. length (R ! i) = xs ! i + 1 \<and> R ! i ! (xs ! i) = 0"
    using Cons [of "M @ [r]" g1] by blast
  have "\<forall>i < length (x # xs). length ((r # R) ! i) = (x # xs) ! i + 1
          \<and> (r # R) ! i ! ((x # xs) ! i) = 0"
  proof (intro allI impI)
    fix i assume "i < length (x # xs)"
    then show "length ((r # R) ! i) = (x # xs) ! i + 1 \<and> (r # R) ! i ! ((x # xs) ! i) = 0"
      using r(2,3) R(3) by (cases i) auto
  qed
  then show ?case
    using step R(1,2) by (intro exI [of _ "r # R"]) simp
qed

text \<open>
  The generator always returns, and what it returns is a square matrix that is symmetric
  and zero on the diagonal: the graph both scripts start from satisfies the invariant of
  the data model.
\<close>

lemma create_random_simple_graph_simple:
  "\<exists>M g'. create_random_simple_graph num_nodes prob g = Inr (M, g')
      \<and> length M = nat num_nodes
      \<and> (\<forall>a < nat num_nodes. length (M ! a) = nat num_nodes \<and> M ! a ! a = 0)
      \<and> (\<forall>a < nat num_nodes. \<forall>b < nat num_nodes. M ! a ! b = M ! b ! a)"
proof -
  let ?n = "nat num_nodes"
  obtain H where H: "fst (half_matrix prob [0..<?n] [] g) = H" "length H = ?n"
      "\<forall>i < ?n. length (H ! i) = i + 1 \<and> H ! i ! i = 0"
    using half_matrix_shape [of prob "[0..<?n]" "[]" g] by auto
  let ?M = "map (\<lambda>x. if x \<in> set [0..<?n] then H ! x @ map (\<lambda>y. H ! y ! x) [x + 1..<?n]
                          else H ! x) [0..<?n]"
  have "mirror_matrix (int ?n) [0..<?n] H = Inr ?M"
    using H(2,3) by (intro mirror_matrix_eq) simp_all
  then have mm: "mirror_matrix num_nodes [0..<?n] H = Inr ?M"
    by (cases "0 \<le> num_nodes") simp_all
  have run: "create_random_simple_graph num_nodes prob g
               = Inr (?M, snd (half_matrix prob [0..<?n] [] g))"
    using H(1) mm by (simp add: create_random_simple_graph_def py_range_def case_prod_beta)
  have row: "?M ! a = H ! a @ map (\<lambda>y. H ! y ! a) [a + 1..<?n]" if "a < ?n" for a
    using that by simp
  have len: "length (?M ! a) = ?n" if "a < ?n" for a
    using that H(3) by (simp add: row)
  have low: "?M ! a ! b = H ! a ! b" if "a < ?n" "b \<le> a" for a b
    using that H(3) by (simp add: row nth_append)
  have up: "?M ! a ! b = H ! b ! a" if "a < b" "b < ?n" for a b
  proof -
    have a: "a < ?n" using that by simp
    have idx: "[a + 1..<?n] ! (b - (a + 1)) = b"
      using that by (subst nth_upt) simp_all
    have "?M ! a ! b = map (\<lambda>y. H ! y ! a) [a + 1..<?n] ! (b - (a + 1))"
      using that a H(3) by (simp add: row nth_append)
    also have "\<dots> = (\<lambda>y. H ! y ! a) ([a + 1..<?n] ! (b - (a + 1)))"
      using that by (intro nth_map) simp
    finally show ?thesis unfolding idx .
  qed
  have sym: "?M ! a ! b = ?M ! b ! a" if "a < ?n" "b < ?n" for a b
  proof (cases a b rule: linorder_cases)
    case less
    then show ?thesis using up [OF less that(2)] low [OF that(2), of a] by simp
  next
    case equal
    then show ?thesis by simp
  next
    case greater
    then show ?thesis using up [OF greater that(1)] low [OF that(1), of b] by simp
  qed
  have diag: "?M ! a ! a = 0" if "a < ?n" for a
    using low [OF that, of a] H(3) that by simp
  show ?thesis
    using run len diag sym by (intro exI [of _ ?M] exI [of _ "snd (half_matrix prob [0..<?n] [] g)"]) simp
qed

section \<open>Configuration values outside their range\<close>

lemma random_random_nonneg: "0 \<le> fst (random_random g)"
  by (simp add: random_random_def)

lemma half_row_no_edges:
  assumes "p \<le> 0"
  shows "fst (half_row p x ys row g) = row @ replicate (length ys) 0"
proof (induction ys arbitrary: row g)
  case Nil
  show ?case by simp
next
  case (Cons y ys)
  have ih: "\<And>row g. fst (half_row p x ys row g) = row @ replicate (length ys) 0"
    using Cons by simp
  have no: "\<not> fst (random_random g) < p"
    using assms random_random_nonneg [of g] by linarith
  show ?case
  proof (cases "x = y")
    case True
    have "fst (half_row p x (y # ys) row g) = fst (half_row p x ys (row @ [0]) g)"
      using True by simp
    then show ?thesis by (simp add: ih)
  next
    case False
    have "fst (half_row p x (y # ys) row g)
            = fst (half_row p x ys (row @ [0]) (snd (random_random g)))"
      using False no by (simp add: case_prod_beta)
    then show ?thesis by (simp add: ih)
  qed
qed

lemma half_matrix_no_edges:
  assumes "p \<le> 0"
  shows "fst (half_matrix p xs M g) = M @ map (\<lambda>x. replicate (x + 1) 0) xs"
proof (induction xs arbitrary: M g)
  case Nil
  show ?case by simp
next
  case (Cons x xs)
  have "fst (half_row p x [0..<x + 1] [] g) = replicate (x + 1) 0"
    using half_row_no_edges [OF assms, of x "[0..<x + 1]" "[]" g] by (simp del: upt_Suc)
  then show ?case
    by (simp add: Cons case_prod_beta del: upt_Suc replicate_Suc)
qed

lemma create_graph_no_nodes:
  assumes "num_nodes \<le> 0"
  shows "create_random_simple_graph num_nodes prob g = Inr ([], g)"
  using assms by (simp add: create_random_simple_graph_def py_range_def)

lemma create_graph_no_edges:
  assumes "prob \<le> 0"
  shows "\<exists>g'. create_random_simple_graph num_nodes prob g
           = Inr (replicate (nat num_nodes) (replicate (nat num_nodes) 0), g')"
proof -
  let ?n = "nat num_nodes"
  let ?H = "map (\<lambda>x. replicate (x + 1) (0 :: int)) [0..<?n]"
  have H: "fst (half_matrix prob [0..<?n] [] g) = ?H"
    using half_matrix_no_edges [OF assms, of "[0..<?n]" "[]" g] by simp
  have "mirror_matrix (int ?n) [0..<?n] ?H =
          Inr (map (\<lambda>x. if x \<in> set [0..<?n] then ?H ! x @ map (\<lambda>y. ?H ! y ! x) [x + 1..<?n]
                          else ?H ! x) [0..<?n])"
    by (rule mirror_matrix_eq) (simp_all del: replicate_Suc)
  also have "map (\<lambda>x. if x \<in> set [0..<?n] then ?H ! x @ map (\<lambda>y. ?H ! y ! x) [x + 1..<?n]
                          else ?H ! x) [0..<?n]
             = map (\<lambda>x. replicate ?n (0 :: int)) [0..<?n]"
  proof (rule map_cong [OF refl])
    fix x assume "x \<in> set [0..<?n]"
    then have x: "x < ?n" by simp
    have "map (\<lambda>y. ?H ! y ! x) [x + 1..<?n] = map (\<lambda>y. 0) [x + 1..<?n]"
      using x by (intro map_cong) (auto simp del: replicate_Suc)
    also have "\<dots> = replicate (?n - (x + 1)) 0"
      by (simp add: map_replicate_const)
    finally have "?H ! x @ map (\<lambda>y. ?H ! y ! x) [x + 1..<?n]
                    = replicate (x + 1) 0 @ replicate (?n - (x + 1)) 0"
      using x by (simp del: replicate_Suc)
    also have "\<dots> = replicate ?n 0"
      using x by (simp add: replicate_add [symmetric] del: replicate_Suc)
    finally show "(if x \<in> set [0..<?n] then ?H ! x @ map (\<lambda>y. ?H ! y ! x) [x + 1..<?n]
                   else ?H ! x) = replicate ?n 0"
      using x by simp
  qed
  also have "\<dots> = replicate ?n (replicate ?n 0)"
    by (simp add: map_replicate_const)
  finally have M: "mirror_matrix (int ?n) [0..<?n] ?H = Inr (replicate ?n (replicate ?n 0))" .
  have M': "mirror_matrix num_nodes [0..<?n] ?H = Inr (replicate ?n (replicate ?n 0))"
  proof (cases "0 \<le> num_nodes")
    case True
    then show ?thesis using M by simp
  next
    case False
    then show ?thesis by simp
  qed
  show ?thesis
    using H M' by (simp add: create_random_simple_graph_def py_range_def case_prod_beta)
qed

lemma node_step_never_recolours:
  assumes "p \<le> 0" and "node_step adj_matrix pal p node colors g = Inr (colors', g')"
  shows "colors' = colors"
proof -
  have "\<not> fst (random_random g) < p"
    using assms(1) random_random_nonneg [of g] by linarith
  then show ?thesis
    using assms(2) unfolding node_step_def Let_def
    by (auto simp: case_prod_beta split: sum.splits if_splits)
qed

lemma rand_initialise_colors_empty_palette:
  "rand_initialise_colors adj_matrix [] g = (if adj_matrix = [] then Inr ([], g) else Inl ValueError)"
proof (cases adj_matrix)
  case Nil
  then show ?thesis by (simp add: rand_initialise_colors_def)
next
  case (Cons r rs)
  then have "[0..<length adj_matrix] = 0 # [1..<length adj_matrix]"
    by (simp add: upt_conv_Cons del: upt_Suc)
  then show ?thesis
    using Cons by (simp add: rand_initialise_colors_def random_randint_def)
qed

text \<open>
  C5, as the code has it: nothing checks the configuration. A node count of zero or less
  gives the empty graph; an edge probability of zero or less gives the graph without
  edges on the requested nodes; with a change probability of zero or less no node ever
  changes its colour; and an empty palette raises ValueError, from \<^verbatim>\<open>random.randint\<close>
  at the first node, when the graph has a node and is accepted when it has none.
\<close>

theorem no_configuration_validation:
  "(num_nodes \<le> 0 \<longrightarrow> create_random_simple_graph num_nodes prob g = Inr ([], g))
   \<and> (prob \<le> 0 \<longrightarrow>
        (\<exists>g'. create_random_simple_graph num_nodes prob g
                 = Inr (replicate (nat num_nodes) (replicate (nat num_nodes) 0), g')))
   \<and> (p \<le> 0 \<and> node_step adj_matrix curr_colors_list p node colors g = Inr (colors', g1)
        \<longrightarrow> colors' = colors)
   \<and> rand_initialise_colors adj_matrix [] g
        = (if adj_matrix = [] then Inr ([], g) else Inl ValueError)"
  using create_graph_no_nodes [of num_nodes prob g] create_graph_no_edges [of prob num_nodes g]
    node_step_never_recolours [of p adj_matrix curr_colors_list node colors g colors' g1]
    rand_initialise_colors_empty_palette [of adj_matrix g]
  by blast

text \<open>
  The claim as written fails: a negative node count, a negative edge probability, an
  empty palette on the empty graph and a negative change probability are all accepted and
  the calls return normally.
\<close>

theorem invalid_configuration_accepted:
  "create_random_simple_graph (- 1) (- 1 / 2) (sconst 0) = Inr ([], sconst 0)
   \<and> create_random_simple_graph 2 (- 1 / 2) (sconst 0) = Inr ([[0, 0], [0, 0]], sconst 0)
   \<and> rand_initialise_colors [] [] (sconst 0) = Inr ([], sconst 0)
   \<and> node_step [[0, 1], [1, 0]] [''cyan'', ''magenta''] (- 1 / 2) 0 [''cyan'', ''cyan''] (sconst 0)
       = Inr ([''cyan'', ''cyan''], sconst 0)"
  by (simp add: create_random_simple_graph_def py_range_def random_random_def list_get_def
      rand_initialise_colors_def node_step_def get_node_neighbours_def get_node_color_def
      numeral_2_eq_2)

theorem no_configuration_validation_witness:
  "create_random_simple_graph 0 (4 / 10) (sconst 0) = Inr ([], sconst 0)
   \<and> (\<exists>g'. create_random_simple_graph 2 (- 1 / 2) (sconst 0) = Inr ([[0, 0], [0, 0]], g'))
   \<and> rand_initialise_colors [[0]] [] (sconst 0) = Inl ValueError"
proof -
  have a: "create_random_simple_graph 0 (4 / 10) (sconst 0) = Inr ([], sconst 0)"
    using no_configuration_validation [where num_nodes = 0 and prob = "4 / 10" and g = "sconst 0"]
    by simp
  have b: "\<exists>g'. create_random_simple_graph 2 (- 1 / 2) (sconst 0) = Inr ([[0, 0], [0, 0]], g')"
    using no_configuration_validation [where num_nodes = 2 and prob = "- 1 / 2" and g = "sconst 0"]
    by (simp add: numeral_2_eq_2)
  have c: "rand_initialise_colors [[0]] [] (sconst 0) = Inl ValueError"
    using no_configuration_validation [where adj_matrix = "[[0]]" and g = "sconst 0"]
    by simp
  show ?thesis using a b c by blast
qed

end
